theory Spec2Isabelle
  imports
    Main
    "HOL-Library.AList"
    "HOL-Library.Char_ord"
    "HOL-Library.List_Lexorder"
    "HOL-Library.Multiset"
begin

section \<open>JavaScript strings, arrays and maps\<close>

text \<open>
  Strings are lists of code units, kept to eight bits here. A JavaScript \<open>Map\<close> is an
  association list with pairwise distinct keys in insertion order: \<open>get\<close> is
  \<^const>\<open>map_of\<close>, \<open>set\<close> is \<^const>\<open>AList.update\<close> (an existing key keeps its place, a new
  key goes last), \<open>delete\<close> is \<^const>\<open>AList.delete\<close>, \<open>size\<close> is \<^const>\<open>length\<close>.
\<close>

text \<open>The characters of the class \<^verbatim>\<open>\s\<close> among the eight-bit code units.\<close>

definition is_ws :: "char \<Rightarrow> bool" where
  "is_ws c = (c \<in> {CHR 0x09, CHR 0x0A, CHR 0x0B, CHR 0x0C, CHR 0x0D, CHR 0x20, CHR 0xA0})"

text \<open>
  \<^verbatim>\<open>s.split( /\s+/ )\<close>: \<open>inws\<close> says that the previous character belonged to a separator,
  \<open>acc\<close> is the piece being read, reversed.
\<close>

fun split_go :: "bool \<Rightarrow> string \<Rightarrow> string \<Rightarrow> string list" where
  "split_go inws acc [] = [rev acc]"
| "split_go inws acc (c # cs) =
     (if is_ws c then (if inws then split_go True acc cs else rev acc # split_go True [] cs)
      else split_go False (c # acc) cs)"

definition split_ws :: "string \<Rightarrow> string list" where
  "split_ws s = split_go False [] s"

text \<open>\<^verbatim>\<open>xs.join( sep )\<close>.\<close>

fun join :: "string \<Rightarrow> string list \<Rightarrow> string" where
  "join sep [] = []"
| "join sep [x] = x"
| "join sep (x # y # ys) = x @ sep @ join sep (y # ys)"

text \<open>
  \<^verbatim>\<open>xs.sort()\<close> with the default comparison orders strings by their code units, a proper
  prefix first: the lexicographic order on \<^typ>\<open>string\<close>.
\<close>

definition js_sort :: "string list \<Rightarrow> string list" where
  "js_sort xs = sort xs"

text \<open>\<^verbatim>\<open>ArrayOrItem<string>\<close>: one string or an array of strings.\<close>

datatype array_or_item = Item string | Array "string list"

fun toArray :: "array_or_item \<Rightarrow> string list" where
  "toArray (Item s) = [s]"
| "toArray (Array xs) = xs"

section \<open>Structured attribute values\<close>

text \<open>
  An attribute value is a plain string or an \<^verbatim>\<open>ElementAttributeValue\<close>; there are two of
  the latter, the token list and the styles map. Their classes are not part of the
  sources at hand, only the interface \<^verbatim>\<open>ElementAttributeValue\<close> in \<^verbatim>\<open>element.ts\<close> is.
\<close>

datatype structured =
  TokenList "string list"
| StylesMap "(string \<times> string) list"

datatype attr_value = Plain string | Structured structured

text \<open>
  Modelled from the spec: the methods of \<^verbatim>\<open>TokenList\<close> and \<^verbatim>\<open>StylesMap\<close>
  (\<^verbatim>\<open>tokenlist.ts\<close>, \<^verbatim>\<open>stylesmap.ts\<close>), which are missing from the sources; this holds for
  every function of this section. The spec calls the token list ``an ordered, unique
  collection of whitespace-delimited string tokens'' and the styles map ``a normalized
  key-value store for CSS declarations''. A token list is the list of its tokens in
  insertion order; a styles map is the list of its declarations in insertion order, for
  a styles processor without shorthand rules. First \<^verbatim>\<open>keys\<close>, \<^verbatim>\<open>size\<close>, \<^verbatim>\<open>isEmpty\<close> and
  \<^verbatim>\<open>has\<close>.
\<close>

fun av_keys :: "structured \<Rightarrow> string list" where
  "av_keys (TokenList ts) = ts"
| "av_keys (StylesMap m) = map fst m"

definition av_size :: "structured \<Rightarrow> nat" where
  "av_size v = length (av_keys v)"

definition av_isEmpty :: "structured \<Rightarrow> bool" where
  "av_isEmpty v = (av_size v = 0)"

definition av_has :: "structured \<Rightarrow> string \<Rightarrow> bool" where
  "av_has v t = (t \<in> set (av_keys v))"

text \<open>
  Modelled from the spec: adding tokens to a token list, as \<^verbatim>\<open>TokenList.set\<close> does. Empty
  strings are skipped, a token already there stays where it is.
\<close>

fun tl_add :: "string list \<Rightarrow> string list \<Rightarrow> string list" where
  "tl_add [] ts = ts"
| "tl_add (t # new) ts = tl_add new (if t = [] \<or> t \<in> set ts then ts else ts @ [t])"

text \<open>
  Modelled from the spec: setting declarations in a styles map, one after the other, as
  \<^verbatim>\<open>StylesMap.set\<close> does.
\<close>

fun sm_add :: "(string \<times> string) list \<Rightarrow> (string \<times> string) list \<Rightarrow> (string \<times> string) list" where
  "sm_add [] m = m"
| "sm_add ((k, v) # new) m = sm_add new (AList.update k v m)"

text \<open>
  Modelled from the spec: \<^verbatim>\<open>setTo( string )\<close> replaces the content by what the string
  holds, and \<^verbatim>\<open>remove( tokens )\<close> takes the named tokens or properties out. The
  inline-style parser belongs to the document's styles processor and is the parameter
  \<open>parse\<close>.
\<close>

fun av_setTo :: "(string \<Rightarrow> (string \<times> string) list) \<Rightarrow> structured \<Rightarrow> string \<Rightarrow> structured" where
  "av_setTo parse (TokenList _) s = TokenList (tl_add (split_ws s) [])"
| "av_setTo parse (StylesMap _) s = StylesMap (sm_add (parse s) [])"

fun av_remove :: "structured \<Rightarrow> string list \<Rightarrow> structured" where
  "av_remove (TokenList ts) names = TokenList (filter (\<lambda>t. t \<notin> set names) ts)"
| "av_remove (StylesMap m) names = StylesMap (filter (\<lambda>kv. fst kv \<notin> set names) m)"

text \<open>
  Modelled from the spec: \<^verbatim>\<open>toString\<close>. The tokens are separated by one space; the
  declarations \<^verbatim>\<open>k:v\<close> are sorted and separated by \<^verbatim>\<open>;\<close> (the form in the documentation of
  \<^verbatim>\<open>getIdentity\<close>).
\<close>

fun av_toString :: "structured \<Rightarrow> string" where
  "av_toString (TokenList ts) = join '' '' ts"
| "av_toString (StylesMap m) = join '';'' (js_sort (map (\<lambda>kv. fst kv @ '':'' @ snd kv) m))"

text \<open>
  Modelled from the spec: the binary methods. They take \<^verbatim>\<open>other: this\<close>, a value of the
  same kind; \<open>None\<close> stands for a call with a value of the other kind, which the interface
  does not type.

  \<^item> \<open>isSimilar\<close>: the same tokens, or the same declarations, in any order;
  \<^item> \<open>canMergeFrom\<close>: token lists always merge; styles maps merge unless they give one
    property two values;
  \<^item> \<open>isMatching\<close>: every token, or declaration, of the other value is in this one;
  \<^item> \<open>mergeFrom\<close>: the other value's tokens, or declarations, are added to this one.
\<close>

fun av_isSimilar :: "structured \<Rightarrow> structured \<Rightarrow> bool option" where
  "av_isSimilar (TokenList ts) (TokenList us) =
     Some (length ts = length us \<and> (\<forall>t \<in> set ts. t \<in> set us))"
| "av_isSimilar (StylesMap m) (StylesMap n) =
     Some (length m = length n \<and> (\<forall>kv \<in> set m. map_of n (fst kv) = Some (snd kv)))"
| "av_isSimilar _ _ = None"

fun av_canMergeFrom :: "structured \<Rightarrow> structured \<Rightarrow> bool option" where
  "av_canMergeFrom (TokenList ts) (TokenList us) = Some True"
| "av_canMergeFrom (StylesMap m) (StylesMap n) =
     Some (\<forall>kv \<in> set n. map_of m (fst kv) = None \<or> map_of m (fst kv) = Some (snd kv))"
| "av_canMergeFrom _ _ = None"

fun av_isMatching :: "structured \<Rightarrow> structured \<Rightarrow> bool option" where
  "av_isMatching (TokenList ts) (TokenList us) = Some (\<forall>u \<in> set us. u \<in> set ts)"
| "av_isMatching (StylesMap m) (StylesMap n) =
     Some (\<forall>kv \<in> set n. map_of m (fst kv) = Some (snd kv))"
| "av_isMatching _ _ = None"

fun av_mergeFrom :: "structured \<Rightarrow> structured \<Rightarrow> structured option" where
  "av_mergeFrom (TokenList ts) (TokenList us) = Some (TokenList (tl_add us ts))"
| "av_mergeFrom (StylesMap m) (StylesMap n) = Some (StylesMap (sm_add n m))"
| "av_mergeFrom _ _ = None"

text \<open>\<^verbatim>\<open>String( value )\<close> of a stored attribute value: a structured value gives its string form.\<close>

fun String_of :: "attr_value \<Rightarrow> string" where
  "String_of (Plain s) = s"
| "String_of (Structured v) = av_toString v"

section \<open>The view element\<close>

datatype change_type = AttributesChange | ChildrenChange

type_synonym attr_map = "(string \<times> attr_value) list"

type_synonym change_event = "change_type \<times> attr_map \<times> nat list"

text \<open>
  The fields of \<^verbatim>\<open>Element\<close>: \<^verbatim>\<open>name\<close>, \<^verbatim>\<open>_attrs\<close> and \<^verbatim>\<open>_children\<close> (references into a
  store of nodes, which also holds the field \<^verbatim>\<open>parent\<close> of every node); \<open>fired\<close> is the log
  of the notifications the element was the subject of. Methods whose name starts with an
  underscore are written without it.
\<close>

record element =
  name :: string
  attrs :: attr_map
  children :: "nat list"
  fired :: "change_event list"

text \<open>
  Modelled from the spec: \<^verbatim>\<open>_fireChange( type, node )\<close> of the superclass \<^verbatim>\<open>Node\<close>, which
  is missing from the sources; the spec has it as the change notification interface
  \<^verbatim>\<open>onChange( kind, subjectElement )\<close>. Every notification is logged with its kind and
  with the attributes and the children the subject has at the moment it fires, which
  is what a listener can read from it.
\<close>

definition fireChange :: "change_type \<Rightarrow> element \<Rightarrow> element" where
  "fireChange t e = e\<lparr>fired := fired e @ [(t, attrs e, children e)]\<rparr>"

definition usesTokenList :: "string \<Rightarrow> string \<Rightarrow> bool" where
  "usesTokenList elementName key = (key = ''class'' \<or> elementName = ''a'' \<and> key = ''rel'')"

definition usesStylesMap :: "string \<Rightarrow> string \<Rightarrow> bool" where
  "usesStylesMap elementName key = (key = ''style'')"

text \<open>The getters \<^verbatim>\<open>_classes\<close> and \<^verbatim>\<open>_styles\<close>, \<^verbatim>\<open>childCount\<close> and \<^verbatim>\<open>isEmpty\<close>.\<close>

definition classes :: "element \<Rightarrow> attr_value option" where
  "classes e = map_of (attrs e) ''class''"

definition styles :: "element \<Rightarrow> attr_value option" where
  "styles e = map_of (attrs e) ''style''"

definition childCount :: "element \<Rightarrow> nat" where
  "childCount e = length (children e)"

definition isEmpty :: "element \<Rightarrow> bool" where
  "isEmpty e = (length (children e) = 0)"

text \<open>
  What \<^verbatim>\<open>if ( x )\<close> and \<^verbatim>\<open>!x\<close> test on a looked-up value: \<^verbatim>\<open>undefined\<close> and the empty
  string are falsy, every object is truthy.
\<close>

fun truthy :: "attr_value option \<Rightarrow> bool" where
  "truthy None = False"
| "truthy (Some (Plain s)) = (s \<noteq> [])"
| "truthy (Some (Structured v)) = True"

text \<open>
  The invariant the constructor and the mutators keep: keys are unique, and a key holds
  a token list, a styles map or a plain string as \<^const>\<open>usesTokenList\<close> and
  \<^const>\<open>usesStylesMap\<close> say for the element's name; tokens and style properties are unique,
  and no token is empty.
\<close>

fun wf_value :: "string \<Rightarrow> string \<Rightarrow> attr_value \<Rightarrow> bool" where
  "wf_value nm k (Plain s) = (\<not> usesStylesMap nm k \<and> \<not> usesTokenList nm k)"
| "wf_value nm k (Structured (TokenList ts)) =
     (\<not> usesStylesMap nm k \<and> usesTokenList nm k \<and> distinct ts \<and> [] \<notin> set ts)"
| "wf_value nm k (Structured (StylesMap m)) = (usesStylesMap nm k \<and> distinct (map fst m))"

definition wf_attrs :: "string \<Rightarrow> attr_map \<Rightarrow> bool" where
  "wf_attrs nm as = (distinct (map fst as) \<and> list_all (\<lambda>kv. wf_value nm (fst kv) (snd kv)) as)"

definition wf_element :: "element \<Rightarrow> bool" where
  "wf_element e = wf_attrs (name e) (attrs e)"


subsection \<open>Values handed in from outside\<close>

text \<open>
  The constructor and \<^verbatim>\<open>_setAttribute\<close> take values of type \<^verbatim>\<open>unknown\<close>. The cases the
  code tells apart: \<^verbatim>\<open>null\<close>, a string, an array of strings, a record of strings (the
  type \<^verbatim>\<open>Styles\<close>), an instance of \<^verbatim>\<open>TokenList\<close> or of \<^verbatim>\<open>StylesMap\<close>; \<open>JOther s\<close> is any
  other value, given by its string form \<open>s\<close>.
\<close>

datatype js_value =
  JNull
| JString string
| JArray "string list"
| JObject "(string \<times> string) list"
| JTokenList "string list"
| JStylesMap "(string \<times> string) list"
| JOther string

fun js_String :: "js_value \<Rightarrow> string" where
  "js_String JNull = ''null''"
| "js_String (JString s) = s"
| "js_String (JArray xs) = join '','' xs"
| "js_String (JObject kvs) = ''[object Object]''"
| "js_String (JTokenList ts) = av_toString (TokenList ts)"
| "js_String (JStylesMap m) = av_toString (StylesMap m)"
| "js_String (JOther s) = s"

fun js_of :: "attr_value \<Rightarrow> js_value" where
  "js_of (Plain s) = JString s"
| "js_of (Structured (TokenList ts)) = JTokenList ts"
| "js_of (Structured (StylesMap m)) = JStylesMap m"

text \<open>
  Modelled from the spec: \<^verbatim>\<open>toMap\<close> of the utilities package, which is missing from the
  sources: the attributes given ``as a record, an iterable of key/value pairs, or an
  existing key-value mapping'' are normalized to a map. The entries are set one after
  the other, so a key given twice keeps its first place and its last value.
\<close>

fun toMap_go :: "(string \<times> js_value) list \<Rightarrow> (string \<times> js_value) list \<Rightarrow> (string \<times> js_value) list" where
  "toMap_go [] m = m"
| "toMap_go ((k, v) # rest) m = toMap_go rest (AList.update k v m)"

definition toMap :: "(string \<times> js_value) list \<Rightarrow> (string \<times> js_value) list" where
  "toMap entries = toMap_go entries []"

text \<open>
  \<^verbatim>\<open>_parseAttributes\<close>: the loop deletes or overwrites the entry it stands on, which keeps
  the order of the other entries, so it maps each entry to nothing or to its new value.
\<close>

definition parseValue ::
  "(string \<Rightarrow> (string \<times> string) list) \<Rightarrow> string \<Rightarrow> string \<Rightarrow> js_value \<Rightarrow> attr_value option" where
  "parseValue parse nm key value =
     (if value = JNull then None
      else if usesStylesMap nm key then
        Some (Structured (case value of
                JStylesMap m \<Rightarrow> StylesMap m
              | _ \<Rightarrow> av_setTo parse (StylesMap []) (js_String value)))
      else if usesTokenList nm key then
        Some (Structured (case value of
                JTokenList ts \<Rightarrow> TokenList ts
              | _ \<Rightarrow> av_setTo parse (TokenList []) (js_String value)))
      else (case value of
              JString s \<Rightarrow> Some (Plain s)
            | _ \<Rightarrow> Some (Plain (js_String value))))"

definition parseAttributes ::
  "(string \<Rightarrow> (string \<times> string) list) \<Rightarrow> string \<Rightarrow> (string \<times> js_value) list \<Rightarrow> attr_map" where
  "parseAttributes parse nm given =
     List.map_filter (\<lambda>kv. map_option (Pair (fst kv)) (parseValue parse nm (fst kv) (snd kv)))
       (toMap given)"

text \<open>
  An instance of \<^verbatim>\<open>TokenList\<close> or \<^verbatim>\<open>StylesMap\<close> handed to the constructor has unique
  tokens, none of them empty, or unique properties.
\<close>

fun wf_js :: "js_value \<Rightarrow> bool" where
  "wf_js (JTokenList ts) = (distinct ts \<and> [] \<notin> set ts)"
| "wf_js (JStylesMap m) = distinct (map fst m)"
| "wf_js _ = True"

subsection \<open>Reading attributes\<close>

definition getAttributeKeys :: "element \<Rightarrow> string list" where
  "getAttributeKeys e =
     (if truthy (classes e) then [''class''] else []) @
     (if truthy (styles e) then [''style''] else []) @
     filter (\<lambda>key. key \<noteq> ''class'' \<and> key \<noteq> ''style'') (map fst (attrs e))"

definition getAttributes :: "element \<Rightarrow> (string \<times> string) list" where
  "getAttributes e = map (\<lambda>kv. (fst kv, String_of (snd kv))) (attrs e)"

definition getAttribute :: "element \<Rightarrow> string \<Rightarrow> string option" where
  "getAttribute e key = map_option String_of (map_of (attrs e) key)"

text \<open>
  \<^verbatim>\<open>hasAttribute( key, token? )\<close>. The cast to \<^verbatim>\<open>ElementAttributeValue\<close> is unchecked:
  \<open>None\<close> is the \<^verbatim>\<open>TypeError\<close> of calling \<^verbatim>\<open>has\<close> on a plain string.
\<close>

definition hasAttribute :: "element \<Rightarrow> string \<Rightarrow> string option \<Rightarrow> bool option" where
  "hasAttribute e key token =
     (case map_of (attrs e) key of
        None \<Rightarrow> Some False
      | Some value \<Rightarrow>
          (case token of
             None \<Rightarrow> Some True
           | Some t \<Rightarrow>
               if usesStylesMap (name e) key \<or> usesTokenList (name e) key
               then (case value of Structured v \<Rightarrow> Some (av_has v t) | Plain _ \<Rightarrow> None)
               else Some (value = Plain t)))"

text \<open>
  \<^verbatim>\<open>hasClass( ...className )\<close> and \<^verbatim>\<open>hasStyle( ...property )\<close>: one loop over the
  arguments, here over the value stored under \<^verbatim>\<open>class\<close> or \<^verbatim>\<open>style\<close>.
\<close>

fun hasAll :: "attr_value option \<Rightarrow> string list \<Rightarrow> bool option" where
  "hasAll value [] = Some True"
| "hasAll value (n # ns) =
     (if \<not> truthy value then Some False
      else (case value of
              Some (Structured v) \<Rightarrow> if \<not> av_has v n then Some False else hasAll value ns
            | _ \<Rightarrow> None))"

definition hasClass :: "element \<Rightarrow> string list \<Rightarrow> bool option" where
  "hasClass e className = hasAll (classes e) className"

definition hasStyle :: "element \<Rightarrow> string list \<Rightarrow> bool option" where
  "hasStyle e property = hasAll (styles e) property"


subsection \<open>Writing attributes\<close>

text \<open>
  Modelled from the spec: \<^verbatim>\<open>set\<close> of the structured values, missing from the sources:
  a single property with its value, a record of declarations, or a list of tokens ``is
  merged into the existing (or newly created) structured value''. \<open>None\<close> is an
  argument that is not of the form that the kind of the value takes.
\<close>

datatype set_argument =
  SetProperty string string
| SetStyles "(string \<times> string) list"
| SetTokens "string list"

fun av_set :: "structured \<Rightarrow> set_argument \<Rightarrow> structured option" where
  "av_set (StylesMap m) (SetProperty p v) = Some (StylesMap (AList.update p v m))"
| "av_set (StylesMap m) (SetStyles kvs) = Some (StylesMap (sm_add kvs m))"
| "av_set (TokenList ts) (SetTokens new) = Some (TokenList (tl_add new ts))"
| "av_set _ _ = None"

text \<open>
  \<^verbatim>\<open>_setAttribute( key, value, reset = true )\<close>. \<open>None\<close> is the \<^verbatim>\<open>TypeError\<close> of a structured
  key that holds a non-empty plain string. Without \<open>reset\<close> the value goes to \<^verbatim>\<open>set\<close> of the
  structured value: for a style an array gives its first two items as property and
  value, anything else is passed as it is; for a token list a string is split at white
  space, anything else is passed as it is. Where the argument is none of the forms that
  \<^const>\<open>av_set\<close> covers, what \<^verbatim>\<open>set\<close> makes of it is the parameter \<open>other\<close>, a function of the
  structured value and the value given.
\<close>

definition setAttribute ::
  "(structured \<Rightarrow> js_value \<Rightarrow> structured) \<Rightarrow> (string \<Rightarrow> (string \<times> string) list) \<Rightarrow>
     element \<Rightarrow> string \<Rightarrow> js_value \<Rightarrow> bool \<Rightarrow> element option" where
  "setAttribute other parse e key value reset =
     (let e1 = fireChange AttributesChange e in
      if usesStylesMap (name e1) key \<or> usesTokenList (name e1) key then
        (let fresh = (if usesStylesMap (name e1) key then StylesMap [] else TokenList []);
             current = (case map_of (attrs e1) key of
                          None \<Rightarrow> Some fresh
                        | Some (Plain s) \<Rightarrow> if s = [] then Some fresh else None
                        | Some (Structured v) \<Rightarrow> Some v)
         in case current of
              None \<Rightarrow> None
            | Some currentValue \<Rightarrow>
                Some (e1\<lparr>attrs := AList.update key
                  (Structured
                    (if reset then av_setTo parse currentValue (js_String value)
                     else
                       (case (if usesStylesMap (name e1) key then
                                (case value of
                                   JArray (p # v # others) \<Rightarrow> av_set currentValue (SetProperty p v)
                                 | JObject kvs \<Rightarrow> av_set currentValue (SetStyles kvs)
                                 | _ \<Rightarrow> None)
                              else
                                (case value of
                                   JString s \<Rightarrow> av_set currentValue (SetTokens (split_ws s))
                                 | JArray ts \<Rightarrow> av_set currentValue (SetTokens ts)
                                 | _ \<Rightarrow> None)) of
                          Some v \<Rightarrow> v
                        | None \<Rightarrow> other currentValue value)))
                  (attrs e1)\<rparr>))
      else Some (e1\<lparr>attrs := AList.update key (Plain (js_String value)) (attrs e1)\<rparr>))"

text \<open>
  \<^verbatim>\<open>_removeAttribute( key, tokens? )\<close> returns what it returns and the element after the
  call. \<open>named\<close> is the list of tokens handed to \<^verbatim>\<open>remove\<close>: a string is split at white
  space for a token list, and taken as one name for a styles map.
\<close>

definition named :: "string \<Rightarrow> string \<Rightarrow> array_or_item \<Rightarrow> string list" where
  "named nm key tokens =
     (case tokens of
        Item s \<Rightarrow> if usesTokenList nm key then split_ws s else [s]
      | Array xs \<Rightarrow> xs)"

definition removeAttribute :: "element \<Rightarrow> string \<Rightarrow> array_or_item option \<Rightarrow> (bool \<times> element) option" where
  "removeAttribute e key tokens =
     (let e1 = fireChange AttributesChange e;
          deleted = (map_of (attrs e1) key \<noteq> None, e1\<lparr>attrs := AList.delete key (attrs e1)\<rparr>)
      in if tokens \<noteq> None \<and> (usesStylesMap (name e1) key \<or> usesTokenList (name e1) key) then
           (case map_of (attrs e1) key of
              None \<Rightarrow> Some (False, e1)
            | Some (Plain s) \<Rightarrow> if s = [] then Some (False, e1) else None
            | Some (Structured currentValue) \<Rightarrow>
                (let v = av_remove currentValue (named (name e1) key (the tokens))
                 in if av_isEmpty v then Some deleted
                    else Some (False, e1\<lparr>attrs := AList.update key (Structured v) (attrs e1)\<rparr>)))
         else Some deleted)"

subsection \<open>Comparing, merging and subtracting attributes\<close>

text \<open>
  \<^verbatim>\<open>_canMergeAttributesFrom\<close> and \<^verbatim>\<open>_hasAttributesMatching\<close>: the loops run over the
  attributes of the other element and look each key up in this one. \<open>None\<close> is a call
  of a binary method of a structured value with a value of the other kind.
\<close>

fun canMerge_loop :: "attr_map \<Rightarrow> attr_map \<Rightarrow> bool option" where
  "canMerge_loop as [] = Some True"
| "canMerge_loop as ((key, otherValue) # rest) =
     (case map_of as key of
        None \<Rightarrow> canMerge_loop as rest
      | Some value \<Rightarrow>
          (case (value, otherValue) of
             (Structured v, Structured ov) \<Rightarrow>
               (case av_canMergeFrom v ov of
                  None \<Rightarrow> None
                | Some ok \<Rightarrow> if \<not> ok then Some False else canMerge_loop as rest)
           | _ \<Rightarrow> if value \<noteq> otherValue then Some False else canMerge_loop as rest))"

definition canMergeAttributesFrom :: "element \<Rightarrow> element \<Rightarrow> bool option" where
  "canMergeAttributesFrom e otherElement =
     (if name e \<noteq> name otherElement then Some False
      else canMerge_loop (attrs e) (attrs otherElement))"

fun hasMatching_loop :: "attr_map \<Rightarrow> attr_map \<Rightarrow> bool option" where
  "hasMatching_loop as [] = Some True"
| "hasMatching_loop as ((key, otherValue) # rest) =
     (case map_of as key of
        None \<Rightarrow> Some False
      | Some value \<Rightarrow>
          (case (value, otherValue) of
             (Structured v, Structured ov) \<Rightarrow>
               (case av_isMatching v ov of
                  None \<Rightarrow> None
                | Some ok \<Rightarrow> if \<not> ok then Some False else hasMatching_loop as rest)
           | _ \<Rightarrow> if value \<noteq> otherValue then Some False else hasMatching_loop as rest))"

definition hasAttributesMatching :: "element \<Rightarrow> element \<Rightarrow> bool option" where
  "hasAttributesMatching e otherElement =
     (if name e \<noteq> name otherElement then Some False
      else hasMatching_loop (attrs e) (attrs otherElement))"

text \<open>
  \<^verbatim>\<open>_mergeAttributesFrom\<close> and \<^verbatim>\<open>_subtractAttributesOf\<close> return what they return and the
  element after the call. The loops read the attributes of the other element as they
  are when the call starts; when the other element is this element itself, no step
  changes an entry that a later step reads, so the result is the same. \<open>other\<close> and \<open>parse\<close>
  are the parameters of \<^const>\<open>setAttribute\<close>, which the merge calls with \<open>reset\<close>.
\<close>

fun merge_loop ::
  "(structured \<Rightarrow> js_value \<Rightarrow> structured) \<Rightarrow> (string \<Rightarrow> (string \<times> string) list) \<Rightarrow>
     element \<Rightarrow> attr_map \<Rightarrow> element option" where
  "merge_loop other parse e [] = Some e"
| "merge_loop other parse e ((key, otherValue) # rest) =
     (case (map_of (attrs e) key, otherValue) of
        (Some (Structured v), Structured ov) \<Rightarrow>
          (case av_mergeFrom v ov of
             None \<Rightarrow> None
           | Some v' \<Rightarrow>
               merge_loop other parse (e\<lparr>attrs := AList.update key (Structured v') (attrs e)\<rparr>) rest)
      | _ \<Rightarrow>
          (case setAttribute other parse e key (js_of otherValue) True of
             None \<Rightarrow> None
           | Some e' \<Rightarrow> merge_loop other parse e' rest))"

definition mergeAttributesFrom ::
  "(structured \<Rightarrow> js_value \<Rightarrow> structured) \<Rightarrow> (string \<Rightarrow> (string \<times> string) list) \<Rightarrow>
     element \<Rightarrow> element \<Rightarrow> (bool \<times> element) option" where
  "mergeAttributesFrom other parse e otherElement =
     (case canMergeAttributesFrom e otherElement of
        None \<Rightarrow> None
      | Some ok \<Rightarrow>
          if \<not> ok then Some (False, e)
          else map_option (Pair True)
                 (merge_loop other parse (fireChange AttributesChange e) (attrs otherElement)))"

fun subtract_loop :: "element \<Rightarrow> attr_map \<Rightarrow> element option" where
  "subtract_loop e [] = Some e"
| "subtract_loop e ((key, otherValue) # rest) =
     (case (map_of (attrs e) key, otherValue) of
        (Some (Structured v), Structured ov) \<Rightarrow>
          (let v' = av_remove v (av_keys ov) in
           subtract_loop
             (e\<lparr>attrs := (if av_isEmpty v' then AList.delete key (attrs e)
                          else AList.update key (Structured v') (attrs e))\<rparr>) rest)
      | (None, Structured ov) \<Rightarrow> None
      | _ \<Rightarrow> subtract_loop (e\<lparr>attrs := AList.delete key (attrs e)\<rparr>) rest)"

definition subtractAttributesOf :: "element \<Rightarrow> element \<Rightarrow> (bool \<times> element) option" where
  "subtractAttributesOf e otherElement =
     (case hasAttributesMatching e otherElement of
        None \<Rightarrow> None
      | Some ok \<Rightarrow>
          if \<not> ok then Some (False, e)
          else map_option (Pair True)
                 (subtract_loop (fireChange AttributesChange e) (attrs otherElement)))"

text \<open>
  What the two loops leave under one key, as a function of the value that this
  element has there (\<open>current\<close>) and of the value of the other element: the merge
  overwrites with a plain value, merges a structured value into a structured one, and
  sets a fresh structured value from the string of the other one where this element
  has none; the subtraction deletes the key, or takes the tokens of the other value
  out of a structured value and deletes the key when nothing is left.
\<close>

definition freshValue :: "string \<Rightarrow> string \<Rightarrow> structured" where
  "freshValue nm key = (if usesStylesMap nm key then StylesMap [] else TokenList [])"

definition mergedValue ::
  "(string \<Rightarrow> (string \<times> string) list) \<Rightarrow> string \<Rightarrow> string \<Rightarrow> attr_value option \<Rightarrow> attr_value \<Rightarrow>
     attr_value option" where
  "mergedValue parse nm key current otherValue =
     (case otherValue of
        Plain s \<Rightarrow> Some (Plain s)
      | Structured ov \<Rightarrow>
          (case current of
             Some (Structured v) \<Rightarrow> map_option Structured (av_mergeFrom v ov)
           | _ \<Rightarrow> Some (Structured (av_setTo parse (freshValue nm key) (av_toString ov)))))"

definition subtractedValue :: "attr_value option \<Rightarrow> attr_value \<Rightarrow> attr_value option" where
  "subtractedValue current otherValue =
     (case (current, otherValue) of
        (Some (Structured v), Structured ov) \<Rightarrow>
          (if av_isEmpty (av_remove v (av_keys ov)) then None
           else Some (Structured (av_remove v (av_keys ov))))
      | _ \<Rightarrow> None)"

subsection \<open>Matching attributes against patterns\<close>

text \<open>
  A pattern is \<^verbatim>\<open>true | string | RegExp\<close>; a regular expression is given by the strings
  it matches. A \<^verbatim>\<open>NormalizedPropertyPattern\<close> is the triple of a key pattern, a token
  pattern and an optional value pattern.
\<close>

datatype pattern = PTrue | PString string | PRegExp "string \<Rightarrow> bool"

fun isRegExp :: "pattern \<Rightarrow> bool" where
  "isRegExp (PRegExp r) = True"
| "isRegExp _ = False"

text \<open>
  Modelled from the spec: \<^verbatim>\<open>isPatternMatched\<close> of \<^verbatim>\<open>matcher.ts\<close>, which is missing from the
  sources: \<^verbatim>\<open>true\<close> matches everything, an ``exact string'' matches itself, a regular
  expression matches what it matches.
\<close>

fun isPatternMatched :: "pattern \<Rightarrow> string \<Rightarrow> bool" where
  "isPatternMatched PTrue item = True"
| "isPatternMatched (PString p) item = (p = item)"
| "isPatternMatched (PRegExp r) item = r item"

type_synonym property_pattern = "pattern \<times> pattern \<times> pattern option"

type_synonym attributes_match = "(string \<times> string option) list"

text \<open>
  \<^verbatim>\<open>_getTokensMatch( attributeKey, patternToken, patternValue )\<close> of the structured
  values is missing from the sources and the spec does not describe it: it is the
  parameter \<open>gtm\<close> of the functions below. It returns the pairs of key and token that
  matched, or \<^verbatim>\<open>undefined\<close>.
\<close>

type_synonym tokens_match = "structured \<Rightarrow> string \<Rightarrow> pattern \<Rightarrow> pattern \<Rightarrow> (string \<times> string) list option"

text \<open>\<^verbatim>\<open>patternValue || true\<close>: a missing value pattern and the empty string are falsy.\<close>

fun orTrue :: "pattern option \<Rightarrow> pattern" where
  "orTrue None = PTrue"
| "orTrue (Some (PString s)) = (if s = [] then PTrue else PString s)"
| "orTrue (Some p) = p"

text \<open>\<^verbatim>\<open>exclude && exclude.includes( key )\<close>.\<close>

definition excluded :: "string list option \<Rightarrow> string \<Rightarrow> bool" where
  "excluded exclude key = (case exclude of None \<Rightarrow> False | Some xs \<Rightarrow> key \<in> set xs)"

text \<open>
  The inner loop of \<^verbatim>\<open>_getAttributesMatch\<close> over the attributes, for one pattern, with
  the variables \<^verbatim>\<open>hasKey\<close>, \<^verbatim>\<open>hasValue\<close> and \<^verbatim>\<open>match\<close>; \<open>None\<close> is the early
  \<^verbatim>\<open>return undefined\<close>.
\<close>

fun scanAttrs ::
  "tokens_match \<Rightarrow> property_pattern \<Rightarrow> string list option \<Rightarrow> attr_map \<Rightarrow>
     bool \<times> bool \<times> attributes_match \<Rightarrow> (bool \<times> bool \<times> attributes_match) option" where
  "scanAttrs gtm p exclude [] st = Some st"
| "scanAttrs gtm (patternKey, patternToken, patternValue) exclude ((key, value) # rest)
     (hasKey, hasValue, match) =
     (if excluded exclude key \<or> \<not> isPatternMatched patternKey key
      then scanAttrs gtm (patternKey, patternToken, patternValue) exclude rest (hasKey, hasValue, match)
      else
        (case value of
           Plain s \<Rightarrow>
             if isPatternMatched patternToken s
             then scanAttrs gtm (patternKey, patternToken, patternValue) exclude rest
                    (True, True, match @ [(key, None)])
             else if \<not> isRegExp patternKey then None
             else scanAttrs gtm (patternKey, patternToken, patternValue) exclude rest
                    (True, hasValue, match)
         | Structured v \<Rightarrow>
             (case gtm v key patternToken (orTrue patternValue) of
                Some tokenMatch \<Rightarrow>
                  scanAttrs gtm (patternKey, patternToken, patternValue) exclude rest
                    (True, True, match @ map (\<lambda>kt. (fst kt, Some (snd kt))) tokenMatch)
              | None \<Rightarrow>
                  if \<not> isRegExp patternKey then None
                  else scanAttrs gtm (patternKey, patternToken, patternValue) exclude rest
                         (True, hasValue, match))))"

text \<open>The outer loop over the patterns, and the method.\<close>

fun matchPatterns ::
  "tokens_match \<Rightarrow> attr_map \<Rightarrow> property_pattern list \<Rightarrow> string list option \<Rightarrow>
     attributes_match \<Rightarrow> attributes_match option" where
  "matchPatterns gtm as [] exclude match = Some match"
| "matchPatterns gtm as (p # patterns) exclude match =
     (case scanAttrs gtm p exclude as (False, False, match) of
        None \<Rightarrow> None
      | Some (hasKey, hasValue, match') \<Rightarrow>
          if \<not> hasKey \<or> \<not> hasValue then None
          else matchPatterns gtm as patterns exclude match')"

definition getAttributesMatch ::
  "tokens_match \<Rightarrow> element \<Rightarrow> property_pattern list \<Rightarrow> string list option \<Rightarrow>
     attributes_match option" where
  "getAttributesMatch gtm e patterns exclude = matchPatterns gtm (attrs e) patterns exclude []"

text \<open>
  Words for the statements about \<^const>\<open>getAttributesMatch\<close>: an attribute whose key is
  not excluded and matches the key pattern; the entries its value contributes when it
  matches the token and value patterns; and the contributions of all attributes of the
  first kind whose values match, in the order of the map.
\<close>

definition keyMatches :: "property_pattern \<Rightarrow> string list option \<Rightarrow> string \<times> attr_value \<Rightarrow> bool" where
  "keyMatches p exclude kv = (\<not> excluded exclude (fst kv) \<and> isPatternMatched (fst p) (fst kv))"

fun valueMatch :: "tokens_match \<Rightarrow> property_pattern \<Rightarrow> string \<times> attr_value \<Rightarrow> attributes_match option" where
  "valueMatch gtm (patternKey, patternToken, patternValue) (key, Plain s) =
     (if isPatternMatched patternToken s then Some [(key, None)] else None)"
| "valueMatch gtm (patternKey, patternToken, patternValue) (key, Structured v) =
     map_option (map (\<lambda>kt. (fst kt, Some (snd kt)))) (gtm v key patternToken (orTrue patternValue))"

definition hits :: "tokens_match \<Rightarrow> property_pattern \<Rightarrow> string list option \<Rightarrow> attr_map \<Rightarrow> attributes_match list" where
  "hits gtm p exclude as = List.map_filter (valueMatch gtm p) (filter (keyMatches p exclude) as)"

text \<open>A \<^verbatim>\<open>_getTokensMatch\<close> that never matches, for the examples.\<close>

definition no_tokens :: tokens_match where
  "no_tokens v key patternToken patternValue = None"

subsection \<open>Similarity and identity\<close>

text \<open>
  \<^verbatim>\<open>isSimilar( otherElement: Item )\<close>. The argument is this very element
  (\<^verbatim>\<open>this === otherElement\<close>), another element, or an item that is no element. \<open>None\<close> is
  a call of \<^verbatim>\<open>isSimilar\<close> of a structured value with a value of the other kind.
\<close>

datatype other_item = ThisElement | OtherElement element | NotAnElement

fun isSimilar_loop :: "attr_map \<Rightarrow> attr_map \<Rightarrow> bool option" where
  "isSimilar_loop [] other = Some True"
| "isSimilar_loop ((key, value) # rest) other =
     (case map_of other key of
        None \<Rightarrow> Some False
      | Some otherValue \<Rightarrow>
          (case (value, otherValue) of
             (Structured v, Structured ov) \<Rightarrow>
               (case av_isSimilar v ov of
                  None \<Rightarrow> None
                | Some ok \<Rightarrow> if \<not> ok then Some False else isSimilar_loop rest other)
           | _ \<Rightarrow> if otherValue \<noteq> value then Some False else isSimilar_loop rest other))"

definition isSimilar :: "element \<Rightarrow> other_item \<Rightarrow> bool option" where
  "isSimilar e otherElement =
     (case otherElement of
        NotAnElement \<Rightarrow> Some False
      | ThisElement \<Rightarrow> Some True
      | OtherElement other \<Rightarrow>
          if name e \<noteq> name other then Some False
          else if length (attrs e) \<noteq> length (attrs other) then Some False
          else isSimilar_loop (attrs e) (attrs other))"

text \<open>
  \<^verbatim>\<open>getIdentity\<close>. \<open>dq\<close> is the double quote of the template strings. \<open>None\<close> is the
  \<^verbatim>\<open>TypeError\<close> of calling \<^verbatim>\<open>keys\<close> on a non-empty plain string stored under \<^verbatim>\<open>class\<close>.
\<close>

definition dq :: string where
  "dq = [CHR 0x22]"

definition getIdentity :: "element \<Rightarrow> string option" where
  "getIdentity e =
     (let classNames =
            (if truthy (classes e)
             then (case classes e of
                     Some (Structured v) \<Rightarrow> Some (join '','' (js_sort (av_keys v)))
                   | _ \<Rightarrow> None)
             else Some []);
          styleString = (if truthy (styles e) then String_of (the (styles e)) else []);
          attributes =
            join '' ''
              (js_sort
                (map (\<lambda>i. fst i @ ''='' @ dq @ String_of (snd i) @ dq)
                  (filter (\<lambda>i. fst i \<noteq> ''style'' \<and> fst i \<noteq> ''class'') (attrs e))))
      in map_option
           (\<lambda>cs. name e @
              (if cs = [] then [] else '' class='' @ dq @ cs @ dq) @
              (if styleString = [] then [] else '' style='' @ dq @ styleString @ dq) @
              (if attributes = [] then [] else '' '' @ attributes))
           classNames)"

text \<open>
  What the loop of \<^const>\<open>isSimilar\<close> asks of a value and its counterpart: two structured
  values are similar, otherwise the values are equal.
\<close>

definition similarValues :: "attr_value \<Rightarrow> attr_value \<Rightarrow> bool" where
  "similarValues v w =
     (case (v, w) of
        (Structured a, Structured b) \<Rightarrow> av_isSimilar a b = Some True
      | _ \<Rightarrow> w = v)"

subsection \<open>The tree: children and parents\<close>

text \<open>
  Nodes are objects that refer to each other, so the tree lives in a store, one map per
  field: \<open>parents\<close> is the field \<^verbatim>\<open>parent\<close> of every node, \<open>elements\<close> holds the fields of the
  nodes that are elements (a document fragment, which can be a parent too, counts as
  one), \<open>texts\<close> the data of the text nodes; \<open>next_ref\<close> is the next unused reference. The
  field \<^verbatim>\<open>document\<close> is left out.
\<close>

record store =
  parents :: "nat \<Rightarrow> nat option"
  elements :: "nat \<Rightarrow> element option"
  texts :: "nat \<Rightarrow> string option"
  next_ref :: nat

text \<open>\<^verbatim>\<open>this._fireChange( type, this )\<close> for the element at a reference.\<close>

definition fire :: "change_type \<Rightarrow> nat \<Rightarrow> store \<Rightarrow> store" where
  "fire t r s = s\<lparr>elements := (elements s)(r := map_option (fireChange t) (elements s r))\<rparr>"

text \<open>
  \<^verbatim>\<open>xs.splice( start, deleteCount, ...items )\<close> returns the removed items; the second
  component is the array afterwards. A negative \<open>start\<close> counts from the end, and both
  arguments are clamped to the array.
\<close>

definition splice :: "'a list \<Rightarrow> int \<Rightarrow> int \<Rightarrow> 'a list \<Rightarrow> 'a list \<times> 'a list" where
  "splice xs start deleteCount items =
     (let len = int (length xs);
          from = nat (if start < 0 then max (len + start) 0 else min start len);
          n = nat (min (max deleteCount 0) (len - int from))
      in (take n (drop from xs), take from xs @ items @ drop (from + n) xs))"

text \<open>
  \<^verbatim>\<open>_removeChildren( index, howMany = 1 )\<close>: the loop sets the parent of
  \<^verbatim>\<open>this._children[ i ]\<close> to \<^verbatim>\<open>null\<close> for \<open>i\<close> from \<open>index\<close> to \<open>index + howMany - 1\<close>; \<open>None\<close>
  is the \<^verbatim>\<open>TypeError\<close> of an index without a child. Then the children are spliced out
  and returned.
\<close>

fun clearParents :: "store \<Rightarrow> nat \<Rightarrow> int list \<Rightarrow> store option" where
  "clearParents s this [] = Some s"
| "clearParents s this (i # is) =
     (case elements s this of
        None \<Rightarrow> None
      | Some e \<Rightarrow>
          if 0 \<le> i \<and> i < int (length (children e))
          then clearParents (s\<lparr>parents := (parents s)(children e ! nat i := None)\<rparr>) this is
          else None)"

definition removeChildren :: "store \<Rightarrow> nat \<Rightarrow> int \<Rightarrow> int \<Rightarrow> (nat list \<times> store) option" where
  "removeChildren s this index howMany =
     (case clearParents (fire ChildrenChange this s) this [index..index + howMany - 1] of
        None \<Rightarrow> None
      | Some s1 \<Rightarrow>
          (case elements s1 this of
             None \<Rightarrow> None
           | Some e \<Rightarrow>
               Some (fst (splice (children e) index howMany []),
                     s1\<lparr>elements := (elements s1)
                          (this \<mapsto> e\<lparr>children := snd (splice (children e) index howMany [])\<rparr>)\<rparr>)))"

text \<open>
  Modelled from the spec: \<^verbatim>\<open>_remove\<close> and \<^verbatim>\<open>index\<close> of \<^verbatim>\<open>Node\<close>, which are missing from the
  sources: an inserted node is detached ``from any prior parent'', ``reinserting
  removes it from its prior location first''. The parent removes the child at the index
  the node has among its children; \<open>None\<close> is a node that its parent does not list.
\<close>

fun indexOf :: "'a list \<Rightarrow> 'a \<Rightarrow> nat option" where
  "indexOf [] x = None"
| "indexOf (y # ys) x = (if y = x then Some 0 else map_option Suc (indexOf ys x))"

text \<open>Modelled from the spec: \<^verbatim>\<open>node._remove()\<close>, as described above.\<close>

definition remove :: "store \<Rightarrow> nat \<Rightarrow> store option" where
  "remove s node =
     (case parents s node of
        None \<Rightarrow> None
      | Some p \<Rightarrow>
          (case elements s p of
             None \<Rightarrow> None
           | Some pe \<Rightarrow>
               (case indexOf (children pe) node of
                  None \<Rightarrow> None
                | Some i \<Rightarrow> map_option snd (removeChildren s p (int i) 1))))"

text \<open>
  \<^verbatim>\<open>normalize( document, nodes )\<close>: what is inserted is a list of strings, text proxies
  (given by their data) and nodes; a string and a text proxy become a new text node.
\<close>

datatype child_item = StringItem string | TextProxyItem string | NodeItem nat

definition newText :: "store \<Rightarrow> string \<Rightarrow> nat \<times> store" where
  "newText s d =
     (next_ref s,
      s\<lparr>parents := (parents s)(next_ref s := None),
        elements := (elements s)(next_ref s := None),
        texts := (texts s)(next_ref s \<mapsto> d),
        next_ref := Suc (next_ref s)\<rparr>)"

fun normalize :: "store \<Rightarrow> child_item list \<Rightarrow> nat list \<times> store" where
  "normalize s [] = ([], s)"
| "normalize s (StringItem d # nodes) =
     (let (r, s1) = newText s d; (rs, s2) = normalize s1 nodes in (r # rs, s2))"
| "normalize s (TextProxyItem d # nodes) =
     (let (r, s1) = newText s d; (rs, s2) = normalize s1 nodes in (r # rs, s2))"
| "normalize s (NodeItem n # nodes) =
     (let (rs, s2) = normalize s nodes in (n # rs, s2))"

text \<open>
  \<^verbatim>\<open>_insertChild( index, items )\<close> returns the number of nodes inserted and the store
  after the call.
\<close>

fun insert_loop :: "store \<Rightarrow> nat \<Rightarrow> int \<Rightarrow> nat \<Rightarrow> nat list \<Rightarrow> (nat \<times> store) option" where
  "insert_loop s this index cnt [] = Some (cnt, s)"
| "insert_loop s this index cnt (node # nodes) =
     (case (if parents s node \<noteq> None then remove s node else Some s) of
        None \<Rightarrow> None
      | Some s1 \<Rightarrow>
          (case elements s1 this of
             None \<Rightarrow> None
           | Some e \<Rightarrow>
               insert_loop
                 (s1\<lparr>parents := (parents s1)(node \<mapsto> this),
                     elements := (elements s1)
                       (this \<mapsto> e\<lparr>children := snd (splice (children e) index 0 [node])\<rparr>)\<rparr>)
                 this (index + 1) (cnt + 1) nodes))"

definition insertChild :: "store \<Rightarrow> nat \<Rightarrow> int \<Rightarrow> child_item list \<Rightarrow> (nat \<times> store) option" where
  "insertChild s this index items =
     (case normalize (fire ChildrenChange this s) items of
        (nodes, s1) \<Rightarrow> insert_loop s1 this index 0 nodes)"

text \<open>
  A node that \<^verbatim>\<open>_insertChild\<close> of the element \<open>this\<close> can take without touching the children
  of \<open>this\<close>: it has no parent, or its parent is another node, which lists it.
\<close>

definition detachable :: "store \<Rightarrow> nat \<Rightarrow> nat \<Rightarrow> bool" where
  "detachable s this node =
     (case parents s node of
        None \<Rightarrow> True
      | Some p \<Rightarrow>
          p \<noteq> this \<and>
          (case elements s p of None \<Rightarrow> False | Some pe \<Rightarrow> node \<in> set (children pe)))"

subsection \<open>The bookmark converters\<close>

text \<open>
  Modelled from the spec: the construction interface
  \<^verbatim>\<open>create( documentRef, name, attributes?, children? )\<close> of the writer, here
  \<^verbatim>\<open>createEmptyElement\<close> of the downcast writer, which is missing from the sources. It
  runs the constructor of \<^verbatim>\<open>Element\<close> without children: the attributes go through
  \<^const>\<open>parseAttributes\<close>.
\<close>

definition createEmptyElement ::
  "(string \<Rightarrow> (string \<times> string) list) \<Rightarrow> string \<Rightarrow> (string \<times> js_value) list \<Rightarrow> element" where
  "createEmptyElement parse nm as =
     \<lparr>name = nm, attrs = parseAttributes parse nm as, children = [], fired = []\<rparr>"

text \<open>
  The view function of the \<^verbatim>\<open>dataDowncast\<close> converter; \<open>bookmarkId\<close> is what
  \<^verbatim>\<open>modelElement.getAttribute( 'bookmarkId' )\<close> returns.
\<close>

definition dataDowncast :: "(string \<Rightarrow> (string \<times> string) list) \<Rightarrow> js_value \<Rightarrow> element" where
  "dataDowncast parse bookmarkId = createEmptyElement parse ''a'' [(''id'', bookmarkId)]"

text \<open>
  \<^verbatim>\<open>upcastMatcher( element, dataPipeline = true )\<close> returns \<^verbatim>\<open>null\<close> or the pattern
  \<^verbatim>\<open>{ name: true, attributes: [ 'id' ] }\<close>. Without a token \<^const>\<open>hasAttribute\<close> always
  returns a boolean.
\<close>

definition upcastMatcher :: "element \<Rightarrow> bool \<Rightarrow> (bool \<times> string list) option" where
  "upcastMatcher e dataPipeline =
     (let isAnchorElement = (name e = ''a'') in
      if \<not> isAnchorElement then None
      else
        (let hasIdAttribute = (hasAttribute e ''id'' None = Some True);
             hasHrefAttribute = (hasAttribute e ''href'' None = Some True)
         in if \<not> hasIdAttribute \<or> hasHrefAttribute \<or> dataPipeline \<and> \<not> isEmpty e then None
            else Some (True, [''id''])))"

subsection \<open>Example elements\<close>

text \<open>
  \<^verbatim>\<open><div id="x" style="color:red" class="foo bar" rel="x y">\<close> and
  \<^verbatim>\<open><a id="foo" href="#">\<close>, \<^verbatim>\<open><div class="foo">\<close> and \<^verbatim>\<open><div id="y">\<close>, and a styles
  parser that finds no declaration.
\<close>

definition example_div :: element where
  "example_div =
     \<lparr>name = ''div'',
      attrs = [(''id'', Plain ''x''),
               (''style'', Structured (StylesMap [(''color'', ''red'')])),
               (''class'', Structured (TokenList [''foo'', ''bar''])),
               (''rel'', Plain ''x y'')],
      children = [], fired = []\<rparr>"

definition example_link :: element where
  "example_link =
     \<lparr>name = ''a'', attrs = [(''id'', Plain ''foo''), (''href'', Plain ''#'')],
      children = [], fired = []\<rparr>"

definition example_class_foo :: element where
  "example_class_foo =
     \<lparr>name = ''div'', attrs = [(''class'', Structured (TokenList [''foo'']))],
      children = [], fired = []\<rparr>"

definition example_other_id :: element where
  "example_other_id =
     \<lparr>name = ''div'', attrs = [(''id'', Plain ''y'')], children = [], fired = []\<rparr>"

definition no_styles :: "string \<Rightarrow> (string \<times> string) list" where
  "no_styles s = []"

text \<open>
  \<^verbatim>\<open><div class="baz" title="t">\<close>, and a \<^verbatim>\<open>set\<close> that leaves a structured value as it is
  when its argument is of no form that it knows.
\<close>

definition example_class_baz :: element where
  "example_class_baz =
     \<lparr>name = ''div'',
      attrs = [(''class'', Structured (TokenList [''baz''])), (''title'', Plain ''t'')],
      children = [], fired = []\<rparr>"

definition no_other :: "structured \<Rightarrow> js_value \<Rightarrow> structured" where
  "no_other v x = v"

text \<open>
  Two anchors whose \<^verbatim>\<open>rel\<close> attributes hold the same tokens in a different order, as
  the constructor builds them from \<^verbatim>\<open>{ rel: 'x y' }\<close> and \<^verbatim>\<open>{ rel: 'y x' }\<close>.
\<close>

definition example_rel_xy :: element where
  "example_rel_xy = createEmptyElement no_styles ''a'' [(''rel'', JString ''x y'')]"

definition example_rel_yx :: element where
  "example_rel_yx = createEmptyElement no_styles ''a'' [(''rel'', JString ''y x'')]"

text \<open>
  A store: the element 0 has the text node 1 as its child, the element 3 has the text
  node 4 as its child, the element 2 has no parent.
\<close>

definition example_store :: store where
  "example_store =
     \<lparr>parents = (\<lambda>r. None)(1 \<mapsto> 0, 4 \<mapsto> 3),
      elements = (\<lambda>r. None)
        (0 \<mapsto> \<lparr>name = ''p'', attrs = [], children = [1], fired = []\<rparr>,
         2 \<mapsto> \<lparr>name = ''b'', attrs = [], children = [], fired = []\<rparr>,
         3 \<mapsto> \<lparr>name = ''p'', attrs = [], children = [4], fired = []\<rparr>),
      texts = (\<lambda>r. None)(1 \<mapsto> ''abc'', 4 \<mapsto> ''def''),
      next_ref = 5\<rparr>"

section \<open>Properties\<close>

subsection \<open>Reading attributes\<close>

lemma wf_attrs_lookup:
  assumes "wf_attrs nm as" and "map_of as k = Some v"
  shows "wf_value nm k v"
proof -
  from assms(2) have "(k, v) \<in> set as" by (rule map_of_SomeD)
  with assms(1) show ?thesis by (auto simp: wf_attrs_def list_all_iff)
qed

lemma wf_structured_truthy:
  assumes "wf_attrs nm as" and "usesTokenList nm k \<or> usesStylesMap nm k"
  shows "truthy (map_of as k) = (k \<in> fst ` set as)"
proof (cases "map_of as k")
  case None
  then have "k \<notin> fst ` set as" by (simp add: map_of_eq_None_iff)
  with None show ?thesis by simp
next
  case (Some v)
  with assms(1) have "wf_value nm k v" by (rule wf_attrs_lookup)
  with assms(2) have "truthy (Some v)"
    by (cases "(nm, k, v)" rule: wf_value.cases) auto
  moreover from Some have "k \<in> fst ` set as"
    by (metis domI dom_map_of_conv_image_fst)
  ultimately show ?thesis using Some by simp
qed

text \<open>
  C10. \<^verbatim>\<open>hasClass()\<close> and \<^verbatim>\<open>hasStyle()\<close> without arguments return \<^verbatim>\<open>true\<close> on every
  element, whatever its attributes are, so also on one with neither a \<^verbatim>\<open>class\<close> nor a
  \<^verbatim>\<open>style\<close> attribute.
\<close>

theorem hasClass_hasStyle_no_arguments:
  "hasClass e [] = Some True \<and> hasStyle e [] = Some True"
  by (simp add: hasClass_def hasStyle_def)

text \<open>
  C5. On an element that satisfies the invariant, \<^verbatim>\<open>getAttributeKeys\<close> yields \<^verbatim>\<open>class\<close>
  first when the element has that attribute, then \<^verbatim>\<open>style\<close> when it has that one, then
  the other keys in the order of the map; no key comes twice and the keys yielded are
  the keys of the map.
\<close>

theorem getAttributeKeys_order:
  assumes "wf_element e"
  shows "getAttributeKeys e =
           (if ''class'' \<in> fst ` set (attrs e) then [''class''] else []) @
           (if ''style'' \<in> fst ` set (attrs e) then [''style''] else []) @
           filter (\<lambda>key. key \<noteq> ''class'' \<and> key \<noteq> ''style'') (map fst (attrs e))
         \<and> distinct (getAttributeKeys e)
         \<and> set (getAttributeKeys e) = fst ` set (attrs e)"
proof -
  from assms have wf: "wf_attrs (name e) (attrs e)" by (simp add: wf_element_def)
  then have d: "distinct (map fst (attrs e))" by (simp add: wf_attrs_def)
  have eq: "getAttributeKeys e =
           (if ''class'' \<in> fst ` set (attrs e) then [''class''] else []) @
           (if ''style'' \<in> fst ` set (attrs e) then [''style''] else []) @
           filter (\<lambda>key. key \<noteq> ''class'' \<and> key \<noteq> ''style'') (map fst (attrs e))"
    by (simp only: getAttributeKeys_def classes_def styles_def
        wf_structured_truthy [OF wf, of "''class''"] wf_structured_truthy [OF wf, of "''style''"]
        usesTokenList_def usesStylesMap_def simp_thms)
  from d have "distinct (getAttributeKeys e)"
    unfolding eq by auto
  moreover have "set (getAttributeKeys e) = fst ` set (attrs e)"
    unfolding eq by (auto simp: image_iff) force+
  ultimately show ?thesis using eq by simp
qed

lemma wf_example_div: "wf_element example_div"
  by (simp add: wf_element_def wf_attrs_def example_div_def usesTokenList_def usesStylesMap_def)

theorem getAttributeKeys_order_witness:
  "wf_element example_div \<and> getAttributeKeys example_div = [''class'', ''style'', ''id'', ''rel'']"
  using getAttributeKeys_order [OF wf_example_div] wf_example_div
  by (simp add: example_div_def)

subsection \<open>The constructor\<close>

lemma toMap_go_distinct:
  "distinct (map fst m) \<Longrightarrow> distinct (map fst (toMap_go es m))"
  by (induction es m rule: toMap_go.induct) (auto simp: distinct_update)

lemma toMap_distinct: "distinct (map fst (toMap given))"
  by (simp add: toMap_def toMap_go_distinct)

lemma map_filter_keys_subset:
  "fst ` set (List.map_filter (\<lambda>kv. map_option (Pair (fst kv)) (f kv)) xs) \<subseteq> fst ` set xs"
  by (induction xs) (auto simp: List.map_filter_simps split: option.splits)

lemma map_of_map_filter:
  assumes "distinct (map fst xs)"
  shows "map_of (List.map_filter (\<lambda>kv. map_option (Pair (fst kv)) (f (fst kv) (snd kv))) xs) k =
           Option.bind (map_of xs k) (f k)"
  using assms
proof (induction xs)
  case Nil
  then show ?case by (simp add: List.map_filter_simps)
next
  case (Cons x xs)
  obtain a b where x: "x = (a, b)" by (cases x)
  show ?case
  proof (cases "a = k")
    case True
    with Cons.prems x have "k \<notin> fst ` set xs" by auto
    then have "map_of xs k = None" by (simp add: map_of_eq_None_iff)
    with Cons x True show ?thesis
      by (cases "f k b") (auto simp: List.map_filter_simps)
  next
    case False
    with Cons x show ?thesis
      by (cases "f a b") (auto simp: List.map_filter_simps)
  qed
qed

lemma distinct_map_filter_keys:
  assumes "distinct (map fst xs)"
  shows "distinct (map fst (List.map_filter (\<lambda>kv. map_option (Pair (fst kv)) (f kv)) xs))"
  using assms
proof (induction xs)
  case Nil
  then show ?case by (simp add: List.map_filter_simps)
next
  case (Cons x xs)
  have "fst x \<notin> fst ` set (List.map_filter (\<lambda>kv. map_option (Pair (fst kv)) (f kv)) xs)"
    using Cons.prems map_filter_keys_subset [of f xs] by auto
  with Cons show ?case
    by (cases "f x") (auto simp: List.map_filter_simps)
qed

lemma map_of_parseAttributes:
  "map_of (parseAttributes parse nm given) key =
     Option.bind (map_of (toMap given) key) (parseValue parse nm key)"
  unfolding parseAttributes_def
  by (rule map_of_map_filter [OF toMap_distinct])

lemma parseAttributes_distinct: "distinct (map fst (parseAttributes parse nm given))"
  unfolding parseAttributes_def
  by (rule distinct_map_filter_keys [OF toMap_distinct])

text \<open>
  C7. Whether an attribute is structured depends on the element's name and the key: the
  constructor stores \<^verbatim>\<open>class\<close> as a token list and \<^verbatim>\<open>style\<close> as a styles map on every
  element, \<^verbatim>\<open>rel\<close> as a token list on an element named \<^verbatim>\<open>a\<close> and as a plain string on
  every other element, every other key as a plain string; a key given with \<^verbatim>\<open>null\<close> is
  not stored, and no key is stored twice.
\<close>

theorem parseAttributes_dispatch:
  "distinct (map fst (parseAttributes parse nm given)) \<and>
   (map_of (toMap given) key = None \<longrightarrow> map_of (parseAttributes parse nm given) key = None) \<and>
   (map_of (toMap given) key = Some JNull \<longrightarrow> map_of (parseAttributes parse nm given) key = None) \<and>
   (\<forall>value. map_of (toMap given) key = Some value \<and> value \<noteq> JNull \<longrightarrow>
      (\<exists>w. map_of (parseAttributes parse nm given) key = Some w \<and>
         (key = ''class'' \<longrightarrow> (\<exists>ts. w = Structured (TokenList ts))) \<and>
         (key = ''style'' \<longrightarrow> (\<exists>m. w = Structured (StylesMap m))) \<and>
         (key = ''rel'' \<and> nm = ''a'' \<longrightarrow> (\<exists>ts. w = Structured (TokenList ts))) \<and>
         (key = ''rel'' \<and> nm \<noteq> ''a'' \<longrightarrow> w = Plain (js_String value)) \<and>
         (key \<noteq> ''class'' \<and> key \<noteq> ''style'' \<and> key \<noteq> ''rel'' \<longrightarrow> w = Plain (js_String value)) \<and>
         (\<forall>s. value = JString s \<and> usesTokenList nm key \<longrightarrow>
            w = Structured (TokenList (tl_add (split_ws s) [])))))"
proof -
  have kinds: "\<And>value. value \<noteq> JNull \<Longrightarrow>
      (\<exists>w. parseValue parse nm key value = Some w \<and>
         (key = ''class'' \<longrightarrow> (\<exists>ts. w = Structured (TokenList ts))) \<and>
         (key = ''style'' \<longrightarrow> (\<exists>m. w = Structured (StylesMap m))) \<and>
         (key = ''rel'' \<and> nm = ''a'' \<longrightarrow> (\<exists>ts. w = Structured (TokenList ts))) \<and>
         (key = ''rel'' \<and> nm \<noteq> ''a'' \<longrightarrow> w = Plain (js_String value)) \<and>
         (key \<noteq> ''class'' \<and> key \<noteq> ''style'' \<and> key \<noteq> ''rel'' \<longrightarrow> w = Plain (js_String value)) \<and>
         (\<forall>s. value = JString s \<and> usesTokenList nm key \<longrightarrow>
            w = Structured (TokenList (tl_add (split_ws s) []))))"
    subgoal for v
      by (cases v) (auto simp: parseValue_def usesTokenList_def usesStylesMap_def)
    done
  show ?thesis
    using kinds by (auto simp: map_of_parseAttributes parseAttributes_distinct parseValue_def)
qed

theorem parseAttributes_dispatch_witness:
  "map_of (toMap [(''rel'', JString ''x y''), (''class'', JString ''c''), (''id'', JNull)]) ''rel'' =
     Some (JString ''x y'') \<and>
   map_of (parseAttributes no_styles ''a''
     [(''rel'', JString ''x y''), (''class'', JString ''c''), (''id'', JNull)]) ''rel'' =
     Some (Structured (TokenList [''x'', ''y''])) \<and>
   parseAttributes no_styles ''div''
     [(''rel'', JString ''x y''), (''class'', JString ''c''), (''id'', JNull)] =
     [(''rel'', Plain ''x y''), (''class'', Structured (TokenList [''c'']))]"
  using parseAttributes_dispatch [of no_styles "''a''"
      "[(''rel'', JString ''x y''), (''class'', JString ''c''), (''id'', JNull)]" "''rel''"]
  by (simp add: parseAttributes_def toMap_def List.map_filter_simps parseValue_def
      usesStylesMap_def usesTokenList_def split_ws_def is_ws_def)

subsection \<open>Removing attributes\<close>

lemma list_all_update:
  "list_all P al \<Longrightarrow> P (k, v) \<Longrightarrow> list_all P (AList.update k v al)"
  by (induction al) auto

lemma list_all_delete: "list_all P al \<Longrightarrow> list_all P (AList.delete k al)"
  by (induction al) auto

lemma wf_attrs_delete: "wf_attrs nm al \<Longrightarrow> wf_attrs nm (AList.delete k al)"
  by (simp add: wf_attrs_def distinct_delete list_all_delete)

lemma wf_attrs_update:
  "wf_attrs nm al \<Longrightarrow> wf_value nm k v \<Longrightarrow> wf_attrs nm (AList.update k v al)"
  by (simp add: wf_attrs_def distinct_update list_all_update)

lemma av_keys_remove: "av_keys (av_remove v names) = filter (\<lambda>t. t \<notin> set names) (av_keys v)"
  by (cases v) (simp_all add: filter_map comp_def)

lemma wf_value_remove:
  "wf_value nm k (Structured v) \<Longrightarrow> wf_value nm k (Structured (av_remove v names))"
  by (cases v) (auto simp: distinct_map_filter)

lemma wf_value_structured:
  "wf_value nm k v \<Longrightarrow> usesStylesMap nm k \<or> usesTokenList nm k \<Longrightarrow> \<exists>s. v = Structured s"
  by (cases "(nm, k, v)" rule: wf_value.cases) auto

lemma map_of_delete_fun: "map_of (AList.delete k al) = (map_of al)(k := None)"
  by (rule ext) (simp add: delete_conv)

lemma map_of_update_fun: "map_of (AList.update k v al) = (map_of al)(k \<mapsto> v)"
  by (rule ext) (simp add: update_conv)

lemma keys_update_present:
  "map_of al k = Some w \<Longrightarrow> map fst (AList.update k v al) = map fst al"
  by (induction al) (auto split: if_splits)

lemma key_in_iff: "(k \<in> fst ` set al) = (map_of al k \<noteq> None)"
  by (simp add: map_of_eq_None_iff)

text \<open>
  C3. On an element that satisfies the invariant \<^verbatim>\<open>_removeAttribute\<close> always returns. With
  tokens and a structured key that is present, the value loses the named tokens and
  nothing else; the key is deleted when no token is left, otherwise it stays in its
  place with the smaller value. With tokens and a structured key that is absent nothing
  changes. Without tokens, or for a plain key, the key is deleted and the other entries
  stay as they are. The boolean returned says whether the key was in the map before and
  is not in it afterwards.
\<close>

theorem removeAttribute_result:
  assumes "wf_element e"
  shows "\<exists>r e'. removeAttribute e key tokens = Some (r, e') \<and>
           wf_element e' \<and> name e' = name e \<and> children e' = children e \<and>
           r = (key \<in> fst ` set (attrs e) \<and> key \<notin> fst ` set (attrs e')) \<and>
           (\<forall>toks v. tokens = Some toks \<and> (usesStylesMap (name e) key \<or> usesTokenList (name e) key) \<and>
                map_of (attrs e) key = Some (Structured v) \<longrightarrow>
              (let v' = av_remove v (named (name e) key toks) in
                 av_keys v' = filter (\<lambda>t. t \<notin> set (named (name e) key toks)) (av_keys v) \<and>
                 (if av_keys v' = []
                  then map_of (attrs e') = (map_of (attrs e))(key := None) \<and> r
                  else map_of (attrs e') = (map_of (attrs e))(key \<mapsto> Structured v') \<and>
                       map fst (attrs e') = map fst (attrs e) \<and> \<not> r))) \<and>
           (tokens \<noteq> None \<and> (usesStylesMap (name e) key \<or> usesTokenList (name e) key) \<and>
                map_of (attrs e) key = None \<longrightarrow> attrs e' = attrs e \<and> \<not> r) \<and>
           (tokens = None \<or> \<not> (usesStylesMap (name e) key \<or> usesTokenList (name e) key) \<longrightarrow>
              map_of (attrs e') = (map_of (attrs e))(key := None) \<and>
              map fst (attrs e') = removeAll key (map fst (attrs e)))"
proof -
  from assms have wf: "wf_attrs (name e) (attrs e)" by (simp add: wf_element_def)
  let ?st = "usesStylesMap (name e) key \<or> usesTokenList (name e) key"
  consider
      (del) "tokens = None \<or> \<not> ?st"
    | (absent) "tokens \<noteq> None" "?st" "map_of (attrs e) key = None"
    | (present) toks v where "tokens = Some toks" "?st" "map_of (attrs e) key = Some (Structured v)"
  proof (cases "tokens = None \<or> \<not> ?st")
    case True
    then show ?thesis using that(1) by blast
  next
    case False
    then obtain toks where t: "tokens = Some toks" and st: "?st" by auto
    show ?thesis
    proof (cases "map_of (attrs e) key")
      case None
      with t st show ?thesis using that(2) by blast
    next
      case (Some w)
      with wf have "wf_value (name e) key w" by (rule wf_attrs_lookup)
      with st obtain v where "w = Structured v" using wf_value_structured by blast
      with Some t st show ?thesis using that(3) by blast
    qed
  qed
  then show ?thesis
  proof cases
    case del
    then have "removeAttribute e key tokens =
        Some (map_of (attrs e) key \<noteq> None,
              (fireChange AttributesChange e)\<lparr>attrs := AList.delete key (attrs e)\<rparr>)"
      by (auto simp: removeAttribute_def fireChange_def Let_def)
    with del wf show ?thesis
      by (auto simp: wf_element_def fireChange_def wf_attrs_delete map_of_delete_fun
          delete_keys key_in_iff delete_conv)
  next
    case absent
    then have "removeAttribute e key tokens = Some (False, fireChange AttributesChange e)"
      by (auto simp: removeAttribute_def fireChange_def Let_def)
    with absent wf show ?thesis
      by (auto simp: wf_element_def fireChange_def key_in_iff)
  next
    case present
    let ?v' = "av_remove v (named (name e) key toks)"
    from wf present(3) have wv: "wf_value (name e) key (Structured v)" by (rule wf_attrs_lookup)
    then have wv': "wf_value (name e) key (Structured ?v')" by (rule wf_value_remove)
    have keys: "av_keys ?v' = filter (\<lambda>t. t \<notin> set (named (name e) key toks)) (av_keys v)"
      by (rule av_keys_remove)
    show ?thesis
    proof (cases "av_keys ?v' = []")
      case True
      with present have "removeAttribute e key tokens =
          Some (True, (fireChange AttributesChange e)\<lparr>attrs := AList.delete key (attrs e)\<rparr>)"
        by (auto simp: removeAttribute_def fireChange_def Let_def av_isEmpty_def av_size_def)
      with present wf True keys show ?thesis
        by (auto simp: wf_element_def fireChange_def wf_attrs_delete map_of_delete_fun
            key_in_iff delete_conv Let_def)
    next
      case False
      with present have "removeAttribute e key tokens =
          Some (False, (fireChange AttributesChange e)\<lparr>attrs := AList.update key (Structured ?v') (attrs e)\<rparr>)"
        by (auto simp: removeAttribute_def fireChange_def Let_def av_isEmpty_def av_size_def)
      with present wf False keys wv' show ?thesis
        by (auto simp: wf_element_def fireChange_def wf_attrs_update map_of_update_fun
            key_in_iff update_conv Let_def keys_update_present)
    qed
  qed
qed

theorem removeAttribute_result_witness:
  "wf_element example_div \<and>
   (\<exists>e'. removeAttribute example_div ''class'' (Some (Item ''foo'')) = Some (False, e') \<and>
      map_of (attrs e') ''class'' = Some (Structured (TokenList [''bar'']))) \<and>
   (\<exists>e'. removeAttribute example_div ''class'' (Some (Item ''bar foo'')) = Some (True, e') \<and>
      map_of (attrs e') ''class'' = None) \<and>
   (\<exists>e'. removeAttribute example_div ''rel'' (Some (Item ''x'')) = Some (True, e') \<and>
      map_of (attrs e') ''rel'' = None)"
  using removeAttribute_result [OF wf_example_div, of "''class''" "Some (Item ''foo'')"]
    wf_example_div
  by (simp add: removeAttribute_def fireChange_def example_div_def usesTokenList_def
      usesStylesMap_def named_def split_ws_def is_ws_def av_isEmpty_def av_size_def)

text \<open>
  C9. On an element that satisfies the invariant every call of \<^verbatim>\<open>_removeAttribute\<close>
  returns and has fired exactly one \<^verbatim>\<open>attributes\<close> notification, which shows the
  attributes as they were before the call; this does not depend on what the call
  returns or removes.
\<close>

theorem removeAttribute_fires:
  assumes "wf_element e"
  shows "\<exists>r e'. removeAttribute e key tokens = Some (r, e') \<and>
           fired e' = fired e @ [(AttributesChange, attrs e, children e)]"
proof -
  from assms have wf: "wf_attrs (name e) (attrs e)" by (simp add: wf_element_def)
  show ?thesis
  proof (cases "map_of (attrs e) key")
    case None
    then show ?thesis
      by (auto simp: removeAttribute_def fireChange_def Let_def)
  next
    case (Some w)
    with wf have wv: "wf_value (name e) key w" by (rule wf_attrs_lookup)
    show ?thesis
    proof (cases w)
      case (Plain s)
      with wv Some show ?thesis
        by (auto simp: removeAttribute_def fireChange_def Let_def)
    next
      case (Structured v)
      with Some show ?thesis
        by (auto simp: removeAttribute_def fireChange_def Let_def)
    qed
  qed
qed

theorem removeAttribute_fires_witness:
  "wf_element example_div \<and>
   (\<exists>e'. removeAttribute example_div ''title'' None = Some (False, e') \<and>
      fired e' = [(AttributesChange, attrs example_div, [])]) \<and>
   (\<exists>e'. removeAttribute example_div ''class'' (Some (Item ''foo'')) = Some (False, e') \<and>
      fired e' = [(AttributesChange, attrs example_div, [])])"
  using removeAttribute_fires [OF wf_example_div, of "''title''" None] wf_example_div
  by (simp add: removeAttribute_def fireChange_def example_div_def usesTokenList_def
      usesStylesMap_def named_def split_ws_def is_ws_def av_isEmpty_def av_size_def)

subsection \<open>Bookmarks\<close>

text \<open>
  C8. The upcast matcher accepts an element exactly when it is named \<^verbatim>\<open>a\<close>, has an
  \<^verbatim>\<open>id\<close> attribute, has no \<^verbatim>\<open>href\<close> attribute and, in the data pipeline, has no
  children; an element with both \<^verbatim>\<open>id\<close> and \<^verbatim>\<open>href\<close> is never accepted. The data
  downcast of a bookmark whose id is \<^verbatim>\<open>foo\<close> is an element named \<^verbatim>\<open>a\<close> without children
  whose only attribute is \<^verbatim>\<open>id\<close> with the value \<^verbatim>\<open>foo\<close>, and the matcher accepts it.
\<close>

theorem upcastMatcher_accepts:
  "(upcastMatcher e dataPipeline \<noteq> None) =
     (name e = ''a'' \<and> hasAttribute e ''id'' None = Some True \<and>
      hasAttribute e ''href'' None = Some False \<and> (dataPipeline \<longrightarrow> isEmpty e)) \<and>
   (hasAttribute e ''id'' None = Some True \<and> hasAttribute e ''href'' None = Some True \<longrightarrow>
      upcastMatcher e dataPipeline = None) \<and>
   name (dataDowncast parse (JString ''foo'')) = ''a'' \<and>
   isEmpty (dataDowncast parse (JString ''foo'')) \<and>
   getAttribute (dataDowncast parse (JString ''foo'')) ''id'' = Some ''foo'' \<and>
   getAttribute (dataDowncast parse (JString ''foo'')) ''href'' = None \<and>
   getAttributeKeys (dataDowncast parse (JString ''foo'')) = [''id''] \<and>
   upcastMatcher (dataDowncast parse (JString ''foo'')) True = Some (True, [''id''])"
proof -
  have a: "attrs (dataDowncast parse (JString ''foo'')) = [(''id'', Plain ''foo'')]"
    by (simp add: dataDowncast_def createEmptyElement_def parseAttributes_def toMap_def
        List.map_filter_simps parseValue_def usesStylesMap_def usesTokenList_def)
  have n: "name (dataDowncast parse (JString ''foo'')) = ''a''"
    and c: "children (dataDowncast parse (JString ''foo'')) = []"
    by (simp_all add: dataDowncast_def createEmptyElement_def)
  have "(upcastMatcher e dataPipeline \<noteq> None) =
     (name e = ''a'' \<and> hasAttribute e ''id'' None = Some True \<and>
      hasAttribute e ''href'' None = Some False \<and> (dataPipeline \<longrightarrow> isEmpty e))"
    by (auto simp: upcastMatcher_def hasAttribute_def Let_def split: option.splits)
  moreover have "hasAttribute e ''id'' None = Some True \<and> hasAttribute e ''href'' None = Some True \<longrightarrow>
      upcastMatcher e dataPipeline = None"
    by (simp add: upcastMatcher_def Let_def)
  moreover have "upcastMatcher (dataDowncast parse (JString ''foo'')) True = Some (True, [''id''])"
    by (simp add: upcastMatcher_def hasAttribute_def Let_def isEmpty_def a n c)
  moreover have "getAttributeKeys (dataDowncast parse (JString ''foo'')) = [''id'']"
    by (simp add: getAttributeKeys_def classes_def styles_def a)
  ultimately show ?thesis
    by (simp add: a n c isEmpty_def getAttribute_def)
qed

theorem upcastMatcher_accepts_witness:
  "upcastMatcher example_link True = None \<and> upcastMatcher example_link False = None \<and>
   upcastMatcher (example_link\<lparr>attrs := [(''id'', Plain ''foo'')], children := [7]\<rparr>) False =
     Some (True, [''id'']) \<and>
   upcastMatcher (example_link\<lparr>attrs := [(''id'', Plain ''foo'')], children := [7]\<rparr>) True = None \<and>
   upcastMatcher (dataDowncast no_styles (JString ''foo'')) True = Some (True, [''id''])"
proof -
  have "upcastMatcher (dataDowncast no_styles (JString ''foo'')) True = Some (True, [''id''])"
    using upcastMatcher_accepts [of example_link True no_styles] by simp
  moreover have "upcastMatcher example_link True = None \<and> upcastMatcher example_link False = None \<and>
      upcastMatcher (example_link\<lparr>attrs := [(''id'', Plain ''foo'')], children := [7]\<rparr>) False =
        Some (True, [''id'']) \<and>
      upcastMatcher (example_link\<lparr>attrs := [(''id'', Plain ''foo'')], children := [7]\<rparr>) True = None"
    by (simp add: upcastMatcher_def hasAttribute_def isEmpty_def example_link_def)
  ultimately show ?thesis by simp
qed

subsection \<open>Matching attributes against patterns\<close>

lemma scanAttrs_step:
  "scanAttrs gtm p exclude (kv # rest) (hk, hv, m) =
     (if \<not> keyMatches p exclude kv then scanAttrs gtm p exclude rest (hk, hv, m)
      else (case valueMatch gtm p kv of
              Some vm \<Rightarrow> scanAttrs gtm p exclude rest (True, True, m @ vm)
            | None \<Rightarrow> if \<not> isRegExp (fst p) then None
                      else scanAttrs gtm p exclude rest (True, hv, m)))"
proof -
  obtain pk pt pv where p: "p = (pk, pt, pv)" by (cases p)
  obtain k v where kv: "kv = (k, v)" by (cases kv)
  show ?thesis
    unfolding p kv
    by (cases v) (auto simp: keyMatches_def split: option.splits)
qed

lemma scanAttrs_regexp:
  assumes "isRegExp (fst p)"
  shows "scanAttrs gtm p exclude as (hk, hv, m) =
           Some (hk \<or> filter (keyMatches p exclude) as \<noteq> [],
                 hv \<or> hits gtm p exclude as \<noteq> [],
                 m @ concat (hits gtm p exclude as))"
  using assms
proof (induction as arbitrary: hk hv m)
  case Nil
  then show ?case by (simp add: hits_def List.map_filter_simps)
next
  case (Cons kv as)
  show ?case
  proof (cases "keyMatches p exclude kv")
    case False
    then show ?thesis
      using Cons by (simp add: scanAttrs_step hits_def)
  next
    case True
    then show ?thesis
      using Cons by (cases "valueMatch gtm p kv") (simp_all add: scanAttrs_step hits_def List.map_filter_simps)
  qed
qed

lemma scanAttrs_exact:
  assumes "\<not> isRegExp (fst p)"
  shows "scanAttrs gtm p exclude as (hk, hv, m) =
           (if \<exists>kv \<in> set as. keyMatches p exclude kv \<and> valueMatch gtm p kv = None then None
            else Some (hk \<or> filter (keyMatches p exclude) as \<noteq> [],
                       hv \<or> filter (keyMatches p exclude) as \<noteq> [],
                       m @ concat (hits gtm p exclude as)))"
  using assms
proof (induction as arbitrary: hk hv m)
  case Nil
  then show ?case by (simp add: hits_def List.map_filter_simps)
next
  case (Cons kv as)
  show ?case
  proof (cases "keyMatches p exclude kv")
    case False
    then show ?thesis
      using Cons by (simp add: scanAttrs_step hits_def)
  next
    case True
    then show ?thesis
      using Cons by (cases "valueMatch gtm p kv") (simp_all add: scanAttrs_step hits_def List.map_filter_simps)
  qed
qed

lemma hits_empty_iff:
  "(hits gtm p exclude as = []) = (\<forall>kv \<in> set as. keyMatches p exclude kv \<longrightarrow> valueMatch gtm p kv = None)"
  by (induction as) (auto simp: hits_def List.map_filter_simps split: option.splits)

lemma scanAttrs_no_value:
  assumes "hits gtm p exclude as = []"
  shows "scanAttrs gtm p exclude as (False, False, m) = None \<or>
         (\<exists>hk m'. scanAttrs gtm p exclude as (False, False, m) = Some (hk, False, m'))"
proof (cases "isRegExp (fst p)")
  case True
  then show ?thesis using assms by (simp add: scanAttrs_regexp)
next
  case False
  show ?thesis
  proof (cases "filter (keyMatches p exclude) as = []")
    case True
    with False show ?thesis by (auto simp: scanAttrs_exact filter_empty_conv)
  next
    case nonempty: False
    then obtain kv where "kv \<in> set as" "keyMatches p exclude kv"
      by (auto simp: filter_empty_conv)
    with assms have "\<exists>kv \<in> set as. keyMatches p exclude kv \<and> valueMatch gtm p kv = None"
      by (auto simp: hits_empty_iff)
    with False show ?thesis by (simp add: scanAttrs_exact)
  qed
qed

lemma matchPatterns_fails:
  assumes "p \<in> set patterns"
    and "\<And>m. scanAttrs gtm p exclude as (False, False, m) = None \<or>
         (\<exists>hk hv m'. scanAttrs gtm p exclude as (False, False, m) = Some (hk, hv, m') \<and> (\<not> hk \<or> \<not> hv))"
  shows "matchPatterns gtm as patterns exclude m = None"
  using assms(1)
proof (induction patterns arbitrary: m)
  case Nil
  then show ?case by simp
next
  case (Cons q patterns)
  show ?case
  proof (cases "q = p")
    case True
    with assms(2) [of m] show ?thesis by auto
  next
    case False
    with Cons have "\<And>m. matchPatterns gtm as patterns exclude m = None" by simp
    then show ?thesis by (auto split: option.splits)
  qed
qed

lemma hits_nonempty_keys:
  "hits gtm p exclude as \<noteq> [] \<Longrightarrow> filter (keyMatches p exclude) as \<noteq> []"
  by (auto simp: hits_def List.map_filter_simps)

lemma scanAttrs_satisfied:
  assumes "hits gtm p exclude as \<noteq> []"
    and "isRegExp (fst p) \<or>
         (\<forall>kv \<in> set as. keyMatches p exclude kv \<longrightarrow> valueMatch gtm p kv \<noteq> None)"
  shows "scanAttrs gtm p exclude as (False, False, m) =
           Some (True, True, m @ concat (hits gtm p exclude as))"
proof (cases "isRegExp (fst p)")
  case True
  with assms(1) hits_nonempty_keys [OF assms(1)] show ?thesis
    by (simp add: scanAttrs_regexp)
next
  case False
  with assms(2) have "\<not> (\<exists>kv \<in> set as. keyMatches p exclude kv \<and> valueMatch gtm p kv = None)"
    by blast
  with False hits_nonempty_keys [OF assms(1)] show ?thesis
    by (simp add: scanAttrs_exact)
qed

lemma scanAttrs_unsatisfied:
  assumes "\<not> (hits gtm p exclude as \<noteq> [] \<and>
         (isRegExp (fst p) \<or>
          (\<forall>kv \<in> set as. keyMatches p exclude kv \<longrightarrow> valueMatch gtm p kv \<noteq> None)))"
  shows "scanAttrs gtm p exclude as (False, False, m) = None \<or>
         (\<exists>hk hv m'. scanAttrs gtm p exclude as (False, False, m) = Some (hk, hv, m') \<and>
            (\<not> hk \<or> \<not> hv))"
proof (cases "hits gtm p exclude as = []")
  case True
  from scanAttrs_no_value [OF True, of m] show ?thesis by blast
next
  case False
  with assms have nr: "\<not> isRegExp (fst p)"
    and bad: "\<exists>kv \<in> set as. keyMatches p exclude kv \<and> valueMatch gtm p kv = None"
    by auto
  have "scanAttrs gtm p exclude as (False, False, m) = None"
    by (simp only: scanAttrs_exact [OF nr] bad if_True)
  then show ?thesis by simp
qed

lemma matchPatterns_result:
  "matchPatterns gtm as patterns exclude m =
     (if \<forall>p \<in> set patterns. hits gtm p exclude as \<noteq> [] \<and>
           (isRegExp (fst p) \<or>
            (\<forall>kv \<in> set as. keyMatches p exclude kv \<longrightarrow> valueMatch gtm p kv \<noteq> None))
      then Some (m @ concat (map (\<lambda>p. concat (hits gtm p exclude as)) patterns))
      else None)"
proof (induction patterns arbitrary: m)
  case Nil
  show ?case by simp
next
  case (Cons p patterns)
  show ?case
  proof (cases "hits gtm p exclude as \<noteq> [] \<and>
           (isRegExp (fst p) \<or>
            (\<forall>kv \<in> set as. keyMatches p exclude kv \<longrightarrow> valueMatch gtm p kv \<noteq> None))")
    case True
    then have "scanAttrs gtm p exclude as (False, False, m) =
        Some (True, True, m @ concat (hits gtm p exclude as))"
      by (intro scanAttrs_satisfied) simp_all
    then have "matchPatterns gtm as (p # patterns) exclude m =
        matchPatterns gtm as patterns exclude (m @ concat (hits gtm p exclude as))"
      by simp
    with True show ?thesis by (simp add: Cons.IH)
  next
    case False
    from scanAttrs_unsatisfied [OF False, of m]
    have none: "matchPatterns gtm as (p # patterns) exclude m = None" by auto
    from False have nall: "\<not> (\<forall>p \<in> set (p # patterns). hits gtm p exclude as \<noteq> [] \<and>
           (isRegExp (fst p) \<or>
            (\<forall>kv \<in> set as. keyMatches p exclude kv \<longrightarrow> valueMatch gtm p kv \<noteq> None)))"
      by auto
    show ?thesis by (simp only: none nall if_False)
  qed
qed

lemma hits_member:
  assumes "entry \<in> set (concat (hits gtm p exclude as))"
  shows "\<exists>kv \<in> set as. \<exists>vm. keyMatches p exclude kv \<and> valueMatch gtm p kv = Some vm \<and>
           entry \<in> set vm"
  using assms
  by (induction as) (auto simp: hits_def List.map_filter_simps split: option.splits if_splits)

text \<open>
  C1, as the code has it. A key pattern that is not a regular expression makes the call
  return no match as soon as it meets an attribute whose key matches and whose value
  does not. A regular expression as key pattern lets the scan pass over such an
  attribute, so that the pattern is satisfied by the other keys it matches: the match
  then holds what the attributes with a matching value contribute, and nothing for the
  others. Whatever the key pattern is, a pattern none of whose matching keys has a
  matching value makes the call return no match. For every list of patterns, the call
  returns a match exactly when every pattern has an attribute whose key and value
  match and no pattern other than a regular expression meets an attribute whose key
  matches and whose value does not; the match is then, pattern after pattern and
  attribute after attribute, what the attributes with a matching key and a matching
  value contribute, so that every entry of a match comes from such an attribute.
\<close>

theorem getAttributesMatch_partial:
  "(p \<in> set patterns \<and> \<not> isRegExp (fst p) \<and>
      (\<exists>kv \<in> set (attrs e). keyMatches p exclude kv \<and> valueMatch gtm p kv = None) \<longrightarrow>
      getAttributesMatch gtm e patterns exclude = None) \<and>
   (p \<in> set patterns \<and>
      (\<forall>kv \<in> set (attrs e). keyMatches p exclude kv \<longrightarrow> valueMatch gtm p kv = None) \<longrightarrow>
      getAttributesMatch gtm e patterns exclude = None) \<and>
   (isRegExp (fst p) \<longrightarrow>
      getAttributesMatch gtm e [p] exclude =
        (if hits gtm p exclude (attrs e) = [] then None
         else Some (concat (hits gtm p exclude (attrs e))))) \<and>
   getAttributesMatch gtm e patterns exclude =
     (if \<forall>q \<in> set patterns. hits gtm q exclude (attrs e) \<noteq> [] \<and>
           (isRegExp (fst q) \<or>
            (\<forall>kv \<in> set (attrs e). keyMatches q exclude kv \<longrightarrow> valueMatch gtm q kv \<noteq> None))
      then Some (concat (map (\<lambda>q. concat (hits gtm q exclude (attrs e))) patterns))
      else None) \<and>
   (\<forall>m entry. getAttributesMatch gtm e patterns exclude = Some m \<and> entry \<in> set m \<longrightarrow>
      (\<exists>q \<in> set patterns. \<exists>kv \<in> set (attrs e). \<exists>vm.
         keyMatches q exclude kv \<and> valueMatch gtm q kv = Some vm \<and> entry \<in> set vm))"
proof (intro conjI impI allI)
  assume a: "p \<in> set patterns \<and> \<not> isRegExp (fst p) \<and>
      (\<exists>kv \<in> set (attrs e). keyMatches p exclude kv \<and> valueMatch gtm p kv = None)"
  then have "\<And>m. scanAttrs gtm p exclude (attrs e) (False, False, m) = None"
    by (simp add: scanAttrs_exact)
  with a show "getAttributesMatch gtm e patterns exclude = None"
    unfolding getAttributesMatch_def by (intro matchPatterns_fails [of p]) auto
next
  assume a: "p \<in> set patterns \<and>
      (\<forall>kv \<in> set (attrs e). keyMatches p exclude kv \<longrightarrow> valueMatch gtm p kv = None)"
  then have "hits gtm p exclude (attrs e) = []" by (simp add: hits_empty_iff)
  then have "\<And>m. scanAttrs gtm p exclude (attrs e) (False, False, m) = None \<or>
         (\<exists>hk hv m'. scanAttrs gtm p exclude (attrs e) (False, False, m) = Some (hk, hv, m') \<and> (\<not> hk \<or> \<not> hv))"
    using scanAttrs_no_value [of gtm p exclude "attrs e"] by blast
  with a show "getAttributesMatch gtm e patterns exclude = None"
    unfolding getAttributesMatch_def by (intro matchPatterns_fails [of p]) auto
next
  assume r: "isRegExp (fst p)"
  have "hits gtm p exclude (attrs e) \<noteq> [] \<Longrightarrow> filter (keyMatches p exclude) (attrs e) \<noteq> []"
    by (auto simp: hits_def List.map_filter_simps)
  with r show "getAttributesMatch gtm e [p] exclude =
        (if hits gtm p exclude (attrs e) = [] then None
         else Some (concat (hits gtm p exclude (attrs e))))"
    by (auto simp: getAttributesMatch_def scanAttrs_regexp)
next
  show all: "getAttributesMatch gtm e patterns exclude =
     (if \<forall>q \<in> set patterns. hits gtm q exclude (attrs e) \<noteq> [] \<and>
           (isRegExp (fst q) \<or>
            (\<forall>kv \<in> set (attrs e). keyMatches q exclude kv \<longrightarrow> valueMatch gtm q kv \<noteq> None))
      then Some (concat (map (\<lambda>q. concat (hits gtm q exclude (attrs e))) patterns))
      else None)"
    unfolding getAttributesMatch_def
    by (simp only: matchPatterns_result [of gtm "attrs e" patterns exclude "[]"] append_Nil)
  fix m entry
  assume a: "getAttributesMatch gtm e patterns exclude = Some m \<and> entry \<in> set m"
  with all have "m = concat (map (\<lambda>q. concat (hits gtm q exclude (attrs e))) patterns)"
    by (simp split: if_splits)
  with a obtain q where q: "q \<in> set patterns" "entry \<in> set (concat (hits gtm q exclude (attrs e)))"
    by auto
  from hits_member [OF q(2)] q(1)
  show "\<exists>q \<in> set patterns. \<exists>kv \<in> set (attrs e). \<exists>vm.
         keyMatches q exclude kv \<and> valueMatch gtm q kv = Some vm \<and> entry \<in> set vm"
    by blast
qed

theorem getAttributesMatch_partial_witness:
  "getAttributesMatch no_tokens example_link [(PRegExp (\<lambda>s. True), PString ''#'', None)] None =
     Some [(''href'', None)] \<and>
   getAttributesMatch no_tokens example_link [(PTrue, PString ''#'', None)] None = None \<and>
   getAttributesMatch no_tokens example_link [(PString ''id'', PString ''#'', None)] None = None \<and>
   getAttributesMatch no_tokens example_link [(PRegExp (\<lambda>s. s = ''id''), PString ''#'', None)] None = None \<and>
   getAttributesMatch no_tokens example_link
     [(PRegExp (\<lambda>s. True), PString ''#'', None), (PString ''id'', PString ''foo'', None)] None =
     Some [(''href'', None), (''id'', None)]"
proof -
  have id: "keyMatches (PTrue, PString ''#'', None) None (''id'', Plain ''foo'') \<and>
            valueMatch no_tokens (PTrue, PString ''#'', None) (''id'', Plain ''foo'') = None"
    by (simp add: keyMatches_def excluded_def)
  have "getAttributesMatch no_tokens example_link [(PRegExp (\<lambda>s. True), PString ''#'', None)] None =
     Some [(''href'', None)]"
    using getAttributesMatch_partial
      [where p = "(PRegExp (\<lambda>s. True), PString ''#'', None)"
        and patterns = "[(PRegExp (\<lambda>s. True), PString ''#'', None),
                         (PString ''id'', PString ''foo'', None)]"
        and gtm = no_tokens and e = example_link and exclude = None]
    by (simp add: hits_def keyMatches_def excluded_def example_link_def List.map_filter_simps)
  moreover have "getAttributesMatch no_tokens example_link [(PTrue, PString ''#'', None)] None = None"
    using id getAttributesMatch_partial
      [where p = "(PTrue, PString ''#'', None)" and patterns = "[(PTrue, PString ''#'', None)]"
        and gtm = no_tokens and e = example_link and exclude = None]
    by (simp add: example_link_def)
  moreover have
    "getAttributesMatch no_tokens example_link [(PString ''id'', PString ''#'', None)] None = None"
    by (simp add: getAttributesMatch_def example_link_def excluded_def)
  moreover have
    "getAttributesMatch no_tokens example_link [(PRegExp (\<lambda>s. s = ''id''), PString ''#'', None)] None = None"
    by (simp add: getAttributesMatch_def example_link_def excluded_def)
  moreover have "getAttributesMatch no_tokens example_link
     [(PRegExp (\<lambda>s. True), PString ''#'', None), (PString ''id'', PString ''foo'', None)] None =
     Some [(''href'', None), (''id'', None)]"
    by (simp add: getAttributesMatch_def example_link_def excluded_def)
  ultimately show ?thesis by simp
qed

text \<open>
  The claim C1 as it is written fails: on \<^verbatim>\<open><a id="foo" href="#">\<close> the regular
  expression \<^verbatim>\<open>/^id$/\<close> matches the key \<^verbatim>\<open>id\<close> and the value \<^verbatim>\<open>foo\<close> does not match the
  token pattern \<^verbatim>\<open>#\<close>; the call returns no match, not a match that holds the key alone.
\<close>

theorem getAttributesMatch_regexp_counterexample:
  "\<forall>gtm.
     keyMatches (PRegExp (\<lambda>s. s = ''id''), PString ''#'', None) None (''id'', Plain ''foo'') \<and>
     valueMatch gtm (PRegExp (\<lambda>s. s = ''id''), PString ''#'', None) (''id'', Plain ''foo'') = None \<and>
     getAttributesMatch gtm example_link [(PRegExp (\<lambda>s. s = ''id''), PString ''#'', None)] None = None \<and>
     getAttributesMatch gtm example_link [(PRegExp (\<lambda>s. s = ''id''), PString ''#'', None)] None \<noteq>
       Some [(''id'', None)]"
  by (simp add: getAttributesMatch_def example_link_def excluded_def keyMatches_def)

subsection \<open>Merging and subtracting attributes\<close>

lemma tl_add_wf:
  "distinct ts \<Longrightarrow> [] \<notin> set ts \<Longrightarrow> distinct (tl_add new ts) \<and> [] \<notin> set (tl_add new ts)"
  by (induction new ts rule: tl_add.induct) auto

lemma sm_add_distinct: "distinct (map fst m) \<Longrightarrow> distinct (map fst (sm_add kvs m))"
  by (induction kvs m rule: sm_add.induct) (auto simp: distinct_update)

lemma wf_value_setTo:
  "wf_value nm k (Structured v) \<Longrightarrow> wf_value nm k (Structured (av_setTo parse v s))"
  by (cases v) (auto simp: tl_add_wf sm_add_distinct)

lemma wf_value_same_kind:
  assumes "wf_value nm k (Structured v)" and "wf_value nm k (Structured ov)"
  shows "(\<exists>ts us. v = TokenList ts \<and> ov = TokenList us) \<or> (\<exists>m n. v = StylesMap m \<and> ov = StylesMap n)"
  using assms by (cases v; cases ov) auto

lemma wf_value_mergeFrom:
  assumes "wf_value nm k (Structured v)" and "wf_value nm k (Structured ov)"
  shows "\<exists>v'. av_mergeFrom v ov = Some v' \<and> wf_value nm k (Structured v')"
  using assms by (cases v; cases ov) (auto simp: tl_add_wf sm_add_distinct)

lemma canMerge_loop_total:
  assumes "wf_attrs nm as" and "list_all (\<lambda>kv. wf_value nm (fst kv) (snd kv)) bs"
  shows "canMerge_loop as bs \<noteq> None"
  using assms(2)
proof (induction bs)
  case Nil
  then show ?case by simp
next
  case (Cons kv bs)
  obtain k ov where kv: "kv = (k, ov)" by (cases kv)
  from Cons have ih: "canMerge_loop as bs \<noteq> None" and wo: "wf_value nm k ov"
    by (simp_all add: kv)
  show ?case
  proof (cases "map_of as k")
    case None
    with ih show ?thesis by (simp add: kv)
  next
    case (Some w)
    with assms(1) have ww: "wf_value nm k w" by (rule wf_attrs_lookup)
    show ?thesis
    proof (cases "\<exists>v u. w = Structured v \<and> ov = Structured u")
      case True
      then obtain v u where vu: "w = Structured v" "ov = Structured u" by blast
      with ww wo have "av_canMergeFrom v u \<noteq> None"
        using wf_value_same_kind [of nm k v u] by auto
      with ih Some vu show ?thesis by (auto simp: kv)
    next
      case False
      with ih Some show ?thesis
        by (cases w; cases ov) (auto simp: kv)
    qed
  qed
qed

lemma hasMatching_loop_total:
  assumes "wf_attrs nm as" and "list_all (\<lambda>kv. wf_value nm (fst kv) (snd kv)) bs"
  shows "hasMatching_loop as bs \<noteq> None"
  using assms(2)
proof (induction bs)
  case Nil
  then show ?case by simp
next
  case (Cons kv bs)
  obtain k ov where kv: "kv = (k, ov)" by (cases kv)
  from Cons have ih: "hasMatching_loop as bs \<noteq> None" and wo: "wf_value nm k ov"
    by (simp_all add: kv)
  show ?case
  proof (cases "map_of as k")
    case None
    with ih show ?thesis by (simp add: kv)
  next
    case (Some w)
    with assms(1) have ww: "wf_value nm k w" by (rule wf_attrs_lookup)
    show ?thesis
    proof (cases "\<exists>v u. w = Structured v \<and> ov = Structured u")
      case True
      then obtain v u where vu: "w = Structured v" "ov = Structured u" by blast
      with ww wo have "av_isMatching v u \<noteq> None"
        using wf_value_same_kind [of nm k v u] by auto
      with ih Some vu show ?thesis by (auto simp: kv)
    next
      case False
      with ih Some show ?thesis
        by (cases w; cases ov) (auto simp: kv)
    qed
  qed
qed

lemma hasMatching_loop_present:
  "hasMatching_loop as bs = Some True \<Longrightarrow> \<forall>kv \<in> set bs. map_of as (fst kv) \<noteq> None"
proof (induction bs)
  case Nil
  then show ?case by simp
next
  case (Cons kv bs)
  obtain k ov where kv: "kv = (k, ov)" by (cases kv)
  from Cons.prems have "map_of as k \<noteq> None \<and> hasMatching_loop as bs = Some True"
    by (auto simp: kv split: option.splits attr_value.splits if_splits)
  with Cons.IH show ?case by (simp add: kv)
qed

lemma js_String_js_of: "js_String (js_of v) = String_of v"
  by (cases v rule: js_of.cases) simp_all

lemma wf_value_freshValue:
  "usesStylesMap nm k \<or> usesTokenList nm k \<Longrightarrow> wf_value nm k (Structured (freshValue nm k))"
  by (auto simp: freshValue_def)

lemma setAttribute_reset:
  assumes "wf_element e"
  shows "\<exists>w. setAttribute other parse e key v True =
             Some ((fireChange AttributesChange e)\<lparr>attrs := AList.update key w (attrs e)\<rparr>) \<and>
           wf_value (name e) key w \<and>
           (if usesStylesMap (name e) key \<or> usesTokenList (name e) key
            then w = Structured (av_setTo parse
                     (case map_of (attrs e) key of
                        Some (Structured cur) \<Rightarrow> cur
                      | _ \<Rightarrow> freshValue (name e) key)
                     (js_String v))
            else w = Plain (js_String v))"
proof -
  from assms have wf: "wf_attrs (name e) (attrs e)" by (simp add: wf_element_def)
  show ?thesis
  proof (cases "usesStylesMap (name e) key \<or> usesTokenList (name e) key")
    case False
    then show ?thesis
      by (intro exI [of _ "Plain (js_String v)"])
        (simp add: setAttribute_def fireChange_def Let_def)
  next
    case st: True
    show ?thesis
    proof (cases "map_of (attrs e) key")
      case None
      from st have "wf_value (name e) key
          (Structured (av_setTo parse (freshValue (name e) key) (js_String v)))"
        by (intro wf_value_setTo wf_value_freshValue)
      with st None show ?thesis
        by (intro exI [of _ "Structured (av_setTo parse (freshValue (name e) key) (js_String v))"])
          (simp add: setAttribute_def fireChange_def Let_def freshValue_def)
    next
      case (Some w)
      with wf have ww: "wf_value (name e) key w" by (rule wf_attrs_lookup)
      with st obtain cur where w: "w = Structured cur" using wf_value_structured by blast
      with ww have "wf_value (name e) key (Structured (av_setTo parse cur (js_String v)))"
        by (simp add: wf_value_setTo)
      with st Some w show ?thesis
        by (intro exI [of _ "Structured (av_setTo parse cur (js_String v))"])
          (simp add: setAttribute_def fireChange_def Let_def)
    qed
  qed
qed

lemma merge_step:
  assumes wfe: "wf_element e" and wo: "wf_value (name e) k ov"
  shows "\<exists>w e1. merge_loop other parse e ((k, ov) # bs) = merge_loop other parse e1 bs \<and>
           mergedValue parse (name e) k (map_of (attrs e) k) ov = Some w \<and>
           attrs e1 = AList.update k w (attrs e) \<and> wf_element e1 \<and> name e1 = name e \<and>
           children e1 = children e \<and> (\<exists>evs. fired e1 = fired e @ evs)"
proof -
  from wfe have wf: "wf_attrs (name e) (attrs e)" by (simp add: wf_element_def)
  show ?thesis
  proof (cases "\<exists>v u. map_of (attrs e) k = Some (Structured v) \<and> ov = Structured u")
    case True
    then obtain v u where vu: "map_of (attrs e) k = Some (Structured v)" "ov = Structured u"
      by blast
    from wf vu(1) have "wf_value (name e) k (Structured v)" by (rule wf_attrs_lookup)
    with wo vu(2) have "\<exists>v'. av_mergeFrom v u = Some v' \<and> wf_value (name e) k (Structured v')"
      by (intro wf_value_mergeFrom) simp_all
    then obtain v' where v': "av_mergeFrom v u = Some v'" "wf_value (name e) k (Structured v')"
      by blast
    let ?e1 = "e\<lparr>attrs := AList.update k (Structured v') (attrs e)\<rparr>"
    from wf v'(2) have "wf_element ?e1" by (simp add: wf_element_def wf_attrs_update)
    moreover have "merge_loop other parse e ((k, ov) # bs) = merge_loop other parse ?e1 bs"
      using vu v'(1) by simp
    moreover have "mergedValue parse (name e) k (map_of (attrs e) k) ov = Some (Structured v')"
      using vu v'(1) by (simp add: mergedValue_def)
    ultimately show ?thesis
      by (intro exI [of _ "Structured v'"] exI [of _ ?e1]) simp
  next
    case False
    from setAttribute_reset [OF wfe, of other parse k "js_of ov"] obtain w where
      "setAttribute other parse e k (js_of ov) True =
             Some ((fireChange AttributesChange e)\<lparr>attrs := AList.update k w (attrs e)\<rparr>) \<and>
           wf_value (name e) k w \<and>
           (if usesStylesMap (name e) k \<or> usesTokenList (name e) k
            then w = Structured (av_setTo parse
                     (case map_of (attrs e) k of
                        Some (Structured cur) \<Rightarrow> cur
                      | _ \<Rightarrow> freshValue (name e) k)
                     (js_String (js_of ov)))
            else w = Plain (js_String (js_of ov)))" ..
    then have w: "setAttribute other parse e k (js_of ov) True =
             Some ((fireChange AttributesChange e)\<lparr>attrs := AList.update k w (attrs e)\<rparr>)"
      "wf_value (name e) k w"
      "if usesStylesMap (name e) k \<or> usesTokenList (name e) k
            then w = Structured (av_setTo parse
                     (case map_of (attrs e) k of
                        Some (Structured cur) \<Rightarrow> cur
                      | _ \<Rightarrow> freshValue (name e) k)
                     (String_of ov))
            else w = Plain (String_of ov)"
      by (simp_all add: js_String_js_of)
    let ?e1 = "(fireChange AttributesChange e)\<lparr>attrs := AList.update k w (attrs e)\<rparr>"
    have step: "merge_loop other parse e ((k, ov) # bs) = merge_loop other parse ?e1 bs"
      using False w(1) by (auto split: option.splits attr_value.splits)
    have mv: "mergedValue parse (name e) k (map_of (attrs e) k) ov = Some w"
    proof (cases ov)
      case (Plain s)
      with wo w(3) show ?thesis by (simp add: mergedValue_def)
    next
      case (Structured u)
      with wo have st: "usesStylesMap (name e) k \<or> usesTokenList (name e) k"
        by (cases u) auto
      show ?thesis
      proof (cases "map_of (attrs e) k")
        case None
        with Structured st w(3) show ?thesis by (simp add: mergedValue_def)
      next
        case (Some c)
        with wf have "wf_value (name e) k c" by (rule wf_attrs_lookup)
        with st obtain cur where "c = Structured cur" using wf_value_structured by blast
        with False Some Structured show ?thesis by simp
      qed
    qed
    have "wf_element ?e1"
      using wf w(2) by (simp add: wf_element_def fireChange_def wf_attrs_update)
    with step mv show ?thesis
      by (intro exI [of _ w] exI [of _ ?e1]) (simp add: fireChange_def)
  qed
qed

lemma keys_update:
  "map fst (AList.update k v al) =
     map fst al @ filter (\<lambda>k'. k' \<notin> fst ` set al) [k]"
  by (simp add: update_keys image_iff)

lemma merge_loop_result:
  assumes "wf_element e" and "list_all (\<lambda>kv. wf_value (name e) (fst kv) (snd kv)) bs"
    and "distinct (map fst bs)"
  shows "\<exists>e' evs. merge_loop other parse e bs = Some e' \<and> wf_element e' \<and> name e' = name e \<and>
           children e' = children e \<and> fired e' = fired e @ evs \<and>
           (\<forall>k. map_of (attrs e') k =
              (case map_of bs k of
                 None \<Rightarrow> map_of (attrs e) k
               | Some ov \<Rightarrow> mergedValue parse (name e) k (map_of (attrs e) k) ov)) \<and>
           map fst (attrs e') =
             map fst (attrs e) @ filter (\<lambda>k. k \<notin> fst ` set (attrs e)) (map fst bs)"
  using assms
proof (induction bs arbitrary: e)
  case Nil
  from Nil.prems(1) show ?case by simp
next
  case (Cons kv bs)
  obtain k ov where kv: "kv = (k, ov)" by (cases kv)
  from Cons.prems(2) have wo: "wf_value (name e) k ov"
    and rest: "list_all (\<lambda>kv. wf_value (name e) (fst kv) (snd kv)) bs"
    by (simp_all add: kv)
  from Cons.prems(3) have d: "distinct (map fst bs)" and notin: "k \<notin> fst ` set bs"
    by (simp_all add: kv)
  from merge_step [OF Cons.prems(1) wo, of other parse bs] obtain w e1 where
    "merge_loop other parse e ((k, ov) # bs) = merge_loop other parse e1 bs \<and>
           mergedValue parse (name e) k (map_of (attrs e) k) ov = Some w \<and>
           attrs e1 = AList.update k w (attrs e) \<and> wf_element e1 \<and> name e1 = name e \<and>
           children e1 = children e \<and> (\<exists>evs. fired e1 = fired e @ evs)"
    by blast
  then obtain evs1 where s: "merge_loop other parse e ((k, ov) # bs) = merge_loop other parse e1 bs"
    "mergedValue parse (name e) k (map_of (attrs e) k) ov = Some w"
    "attrs e1 = AList.update k w (attrs e)" "wf_element e1" "name e1 = name e"
    "children e1 = children e" "fired e1 = fired e @ evs1"
    by blast
  from rest s(5) have rest1: "list_all (\<lambda>kv. wf_value (name e1) (fst kv) (snd kv)) bs" by simp
  from Cons.IH [OF s(4) rest1 d] obtain e' evs where ih:
    "merge_loop other parse e1 bs = Some e'" "wf_element e'" "name e' = name e1"
    "children e' = children e1" "fired e' = fired e1 @ evs"
    "\<forall>k. map_of (attrs e') k =
       (case map_of bs k of
          None \<Rightarrow> map_of (attrs e1) k
        | Some ov \<Rightarrow> mergedValue parse (name e1) k (map_of (attrs e1) k) ov)"
    "map fst (attrs e') =
       map fst (attrs e1) @ filter (\<lambda>k. k \<notin> fst ` set (attrs e1)) (map fst bs)"
    by blast
  from notin have nk: "map_of bs k = None" by (simp add: map_of_eq_None_iff)
  have maps: "\<forall>k'. map_of (attrs e') k' =
      (case map_of (kv # bs) k' of
         None \<Rightarrow> map_of (attrs e) k'
       | Some ov \<Rightarrow> mergedValue parse (name e) k' (map_of (attrs e) k') ov)"
  proof
    fix k'
    show "map_of (attrs e') k' =
      (case map_of (kv # bs) k' of
         None \<Rightarrow> map_of (attrs e) k'
       | Some ov \<Rightarrow> mergedValue parse (name e) k' (map_of (attrs e) k') ov)"
    proof (cases "k' = k")
      case True
      with ih(6) nk have "map_of (attrs e') k' = map_of (attrs e1) k" by simp
      also have "\<dots> = Some w" by (simp add: s(3) update_conv)
      finally show ?thesis using True s(2) by (simp add: kv)
    next
      case False
      then have "map_of (attrs e1) k' = map_of (attrs e) k'" by (simp add: s(3) update_conv)
      with ih(6) False s(5) show ?thesis by (cases "map_of bs k'") (simp_all add: kv)
    qed
  qed
  have set1: "fst ` set (attrs e1) = insert k (fst ` set (attrs e))"
    unfolding s(3) using dom_update [of k w "attrs e"] by (simp add: dom_map_of_conv_image_fst)
  have "filter (\<lambda>k'. k' \<notin> fst ` set (attrs e1)) (map fst bs) =
        filter (\<lambda>k'. k' \<notin> fst ` set (attrs e)) (map fst bs)"
  proof (rule filter_cong [OF refl])
    fix x assume "x \<in> set (map fst bs)"
    with notin have "x \<noteq> k" by auto
    then show "(x \<notin> fst ` set (attrs e1)) = (x \<notin> fst ` set (attrs e))" by (simp add: set1)
  qed
  with ih(7) have keys: "map fst (attrs e') =
      map fst (attrs e) @ filter (\<lambda>k. k \<notin> fst ` set (attrs e)) (map fst (kv # bs))"
    by (simp add: s(3) keys_update kv)
  from s(1) ih(1) have "merge_loop other parse e (kv # bs) = Some e'" by (simp add: kv)
  moreover from ih(5) s(7) have "fired e' = fired e @ (evs1 @ evs)" by simp
  ultimately have "merge_loop other parse e (kv # bs) = Some e' \<and> wf_element e' \<and>
      name e' = name e \<and> children e' = children e \<and> fired e' = fired e @ (evs1 @ evs) \<and>
      (\<forall>k. map_of (attrs e') k =
         (case map_of (kv # bs) k of
            None \<Rightarrow> map_of (attrs e) k
          | Some ov \<Rightarrow> mergedValue parse (name e) k (map_of (attrs e) k) ov)) \<and>
      map fst (attrs e') =
        map fst (attrs e) @ filter (\<lambda>k. k \<notin> fst ` set (attrs e)) (map fst (kv # bs))"
    using ih(2,3,4) s(5,6) maps keys by simp
  then show ?case by (intro exI)
qed

lemma keys_delete:
  "map fst (AList.delete k al) =
     filter (\<lambda>k'. map_of (AList.delete k al) k' \<noteq> None) (map fst al)"
proof -
  have "map fst (AList.delete k al) = filter (\<lambda>k'. k \<noteq> k') (map fst al)"
    by (simp add: delete_keys removeAll_filter_not_eq)
  also have "\<dots> = filter (\<lambda>k'. map_of (AList.delete k al) k' \<noteq> None) (map fst al)"
  proof (rule filter_cong [OF refl])
    fix x assume "x \<in> set (map fst al)"
    then have "map_of al x \<noteq> None" by (simp add: map_of_eq_None_iff)
    then show "(k \<noteq> x) = (map_of (AList.delete k al) x \<noteq> None)"
      by (auto simp: delete_conv)
  qed
  finally show ?thesis .
qed

lemma keys_update_filter:
  assumes "map_of al k \<noteq> None"
  shows "map fst (AList.update k v al) =
     filter (\<lambda>k'. map_of (AList.update k v al) k' \<noteq> None) (map fst al)"
proof -
  from assms obtain w where "map_of al k = Some w" by auto
  then have "map fst (AList.update k v al) = map fst al" by (rule keys_update_present)
  moreover have "filter (\<lambda>k'. map_of (AList.update k v al) k' \<noteq> None) (map fst al) = map fst al"
  proof (rule filter_True, rule ballI)
    fix x assume "x \<in> set (map fst al)"
    then have "map_of al x \<noteq> None" by (simp add: map_of_eq_None_iff)
    then show "map_of (AList.update k v al) x \<noteq> None" by (simp add: update_conv)
  qed
  ultimately show ?thesis by simp
qed

lemma subtract_step:
  assumes wfe: "wf_element e" and present: "map_of (attrs e) k \<noteq> None"
  shows "\<exists>as1. subtract_loop e ((k, ov) # bs) = subtract_loop (e\<lparr>attrs := as1\<rparr>) bs \<and>
           wf_attrs (name e) as1 \<and>
           map_of as1 = (map_of (attrs e))(k := subtractedValue (map_of (attrs e) k) ov) \<and>
           map fst as1 = filter (\<lambda>k'. map_of as1 k' \<noteq> None) (map fst (attrs e))"
proof -
  from wfe have wf: "wf_attrs (name e) (attrs e)" by (simp add: wf_element_def)
  have del: "subtractedValue (map_of (attrs e) k) ov = None \<Longrightarrow>
      subtract_loop e ((k, ov) # bs) = subtract_loop (e\<lparr>attrs := AList.delete k (attrs e)\<rparr>) bs \<Longrightarrow>
      ?thesis"
  proof -
    assume a: "subtractedValue (map_of (attrs e) k) ov = None"
      "subtract_loop e ((k, ov) # bs) = subtract_loop (e\<lparr>attrs := AList.delete k (attrs e)\<rparr>) bs"
    have "map_of (AList.delete k (attrs e)) =
        (map_of (attrs e))(k := subtractedValue (map_of (attrs e) k) ov)"
      by (simp add: a(1) map_of_delete_fun)
    with a(2) wf show ?thesis
      by (intro exI [of _ "AList.delete k (attrs e)"] conjI)
        (simp_all add: wf_attrs_delete keys_delete)
  qed
  show ?thesis
  proof (cases "\<exists>v u. map_of (attrs e) k = Some (Structured v) \<and> ov = Structured u")
    case True
    then obtain v u where vu: "map_of (attrs e) k = Some (Structured v)" "ov = Structured u"
      by blast
    let ?v' = "av_remove v (av_keys u)"
    show ?thesis
    proof (cases "av_isEmpty ?v'")
      case True
      with vu show ?thesis
        by (intro del) (simp_all add: subtractedValue_def)
    next
      case False
      from wf vu(1) have "wf_value (name e) k (Structured v)" by (rule wf_attrs_lookup)
      then have wv': "wf_value (name e) k (Structured ?v')" by (rule wf_value_remove)
      have "subtract_loop e ((k, ov) # bs) =
          subtract_loop (e\<lparr>attrs := AList.update k (Structured ?v') (attrs e)\<rparr>) bs"
        using vu False by (simp add: Let_def)
      moreover have "map_of (AList.update k (Structured ?v') (attrs e)) =
          (map_of (attrs e))(k := subtractedValue (map_of (attrs e) k) ov)"
        using vu False by (simp add: map_of_update_fun subtractedValue_def)
      ultimately show ?thesis
        using wf wv' present
        by (intro exI [of _ "AList.update k (Structured ?v') (attrs e)"] conjI)
          (simp_all add: wf_attrs_update keys_update_filter)
    qed
  next
    case False
    with present have "subtract_loop e ((k, ov) # bs) =
        subtract_loop (e\<lparr>attrs := AList.delete k (attrs e)\<rparr>) bs"
      by (auto split: option.splits attr_value.splits)
    moreover from False have "subtractedValue (map_of (attrs e) k) ov = None"
      by (auto simp: subtractedValue_def split: option.splits attr_value.splits)
    ultimately show ?thesis by (intro del)
  qed
qed

lemma subtractedValue_None [simp]: "subtractedValue None ov = None"
  by (simp add: subtractedValue_def)

lemma subtract_loop_result:
  assumes "wf_element e" and "distinct (map fst bs)"
    and "\<forall>kv \<in> set bs. map_of (attrs e) (fst kv) \<noteq> None"
  shows "\<exists>e'. subtract_loop e bs = Some e' \<and> wf_element e' \<and> name e' = name e \<and>
           children e' = children e \<and> fired e' = fired e \<and>
           (\<forall>k. map_of (attrs e') k =
              (case map_of bs k of
                 None \<Rightarrow> map_of (attrs e) k
               | Some ov \<Rightarrow> subtractedValue (map_of (attrs e) k) ov)) \<and>
           map fst (attrs e') = filter (\<lambda>k. map_of (attrs e') k \<noteq> None) (map fst (attrs e))"
  using assms
proof (induction bs arbitrary: e)
  case Nil
  have "filter (\<lambda>k. map_of (attrs e) k \<noteq> None) (map fst (attrs e)) = map fst (attrs e)"
    by (rule filter_True) (simp add: map_of_eq_None_iff)
  with Nil.prems(1) show ?case by simp
next
  case (Cons kv bs)
  obtain k ov where kv: "kv = (k, ov)" by (cases kv)
  from Cons.prems(3) have present: "map_of (attrs e) k \<noteq> None"
    and others: "\<forall>kv \<in> set bs. map_of (attrs e) (fst kv) \<noteq> None"
    by (simp_all add: kv)
  from Cons.prems(2) have d: "distinct (map fst bs)" and notin: "k \<notin> fst ` set bs"
    by (simp_all add: kv)
  from subtract_step [OF Cons.prems(1) present, of ov bs] obtain as1 where s:
    "subtract_loop e ((k, ov) # bs) = subtract_loop (e\<lparr>attrs := as1\<rparr>) bs"
    "wf_attrs (name e) as1"
    "map_of as1 = (map_of (attrs e))(k := subtractedValue (map_of (attrs e) k) ov)"
    "map fst as1 = filter (\<lambda>k'. map_of as1 k' \<noteq> None) (map fst (attrs e))"
    by blast
  let ?e1 = "e\<lparr>attrs := as1\<rparr>"
  have wf1: "wf_element ?e1" using s(2) by (simp add: wf_element_def)
  have others1: "\<forall>kv \<in> set bs. map_of (attrs ?e1) (fst kv) \<noteq> None"
  proof
    fix x assume x: "x \<in> set bs"
    with notin have "fst x \<noteq> k" by auto
    with others x show "map_of (attrs ?e1) (fst x) \<noteq> None" by (simp add: s(3))
  qed
  from Cons.IH [OF wf1 d others1] obtain e' where ih:
    "subtract_loop ?e1 bs = Some e'" "wf_element e'" "name e' = name ?e1"
    "children e' = children ?e1" "fired e' = fired ?e1"
    "\<forall>k. map_of (attrs e') k =
       (case map_of bs k of
          None \<Rightarrow> map_of (attrs ?e1) k
        | Some ov \<Rightarrow> subtractedValue (map_of (attrs ?e1) k) ov)"
    "map fst (attrs e') = filter (\<lambda>k. map_of (attrs e') k \<noteq> None) (map fst (attrs ?e1))"
    by blast
  from notin have nk: "map_of bs k = None" by (simp add: map_of_eq_None_iff)
  have maps: "\<forall>k'. map_of (attrs e') k' =
      (case map_of (kv # bs) k' of
         None \<Rightarrow> map_of (attrs e) k'
       | Some ov \<Rightarrow> subtractedValue (map_of (attrs e) k') ov)"
  proof
    fix k'
    show "map_of (attrs e') k' =
      (case map_of (kv # bs) k' of
         None \<Rightarrow> map_of (attrs e) k'
       | Some ov \<Rightarrow> subtractedValue (map_of (attrs e) k') ov)"
    proof (cases "k' = k")
      case True
      from spec [OF ih(6), of k] nk have "map_of (attrs e') k = map_of as1 k" by simp
      with True show ?thesis by (simp add: kv s(3))
    next
      case False
      from spec [OF ih(6), of k'] have "map_of (attrs e') k' =
          (case map_of bs k' of
             None \<Rightarrow> map_of as1 k'
           | Some ov \<Rightarrow> subtractedValue (map_of as1 k') ov)"
        by (cases "map_of bs k'") simp_all
      with False show ?thesis by (cases "map_of bs k'") (simp_all add: kv s(3))
    qed
  qed
  have weaker: "\<And>x. map_of (attrs e') x \<noteq> None \<Longrightarrow> map_of as1 x \<noteq> None"
  proof -
    fix x assume a: "map_of (attrs e') x \<noteq> None"
    show "map_of as1 x \<noteq> None"
    proof
      assume "map_of as1 x = None"
      with spec [OF ih(6), of x] have "map_of (attrs e') x = None"
        by (cases "map_of bs x") simp_all
      with a show False by simp
    qed
  qed
  have e1: "attrs ?e1 = as1" by simp
  note k1 = ih(7) [unfolded e1]
  have "map fst (attrs e') =
      filter (\<lambda>k. map_of (attrs e') k \<noteq> None)
        (filter (\<lambda>k'. map_of as1 k' \<noteq> None) (map fst (attrs e)))"
    by (subst k1, subst s(4)) (rule refl)
  also have "\<dots> = filter (\<lambda>k. map_of as1 k \<noteq> None \<and> map_of (attrs e') k \<noteq> None)
      (map fst (attrs e))"
    by (simp only: filter_filter)
  also have "\<dots> = filter (\<lambda>k. map_of (attrs e') k \<noteq> None) (map fst (attrs e))"
  proof (rule filter_cong [OF refl])
    fix x
    from weaker [of x]
    show "(map_of as1 x \<noteq> None \<and> map_of (attrs e') x \<noteq> None) = (map_of (attrs e') x \<noteq> None)"
      by (cases "map_of (attrs e') x = None") simp_all
  qed
  finally have keys: "map fst (attrs e') =
      filter (\<lambda>k. map_of (attrs e') k \<noteq> None) (map fst (attrs e))" .
  from s(1) ih(1) have r: "subtract_loop e (kv # bs) = Some e'" by (simp add: kv)
  from ih(3,4,5) have n: "name e' = name e" "children e' = children e" "fired e' = fired e"
    by simp_all
  have "subtract_loop e (kv # bs) = Some e' \<and> wf_element e' \<and> name e' = name e \<and>
      children e' = children e \<and> fired e' = fired e \<and>
      (\<forall>k. map_of (attrs e') k =
         (case map_of (kv # bs) k of
            None \<Rightarrow> map_of (attrs e) k
          | Some ov \<Rightarrow> subtractedValue (map_of (attrs e) k) ov)) \<and>
      map fst (attrs e') = filter (\<lambda>k. map_of (attrs e') k \<noteq> None) (map fst (attrs e))"
    by (intro conjI r ih(2) n maps keys)
  then show ?case by (intro exI)
qed

text \<open>
  C4. On elements that satisfy the invariant, \<^verbatim>\<open>_mergeAttributesFrom\<close> and
  \<^verbatim>\<open>_subtractAttributesOf\<close> return what their check returns. When the check fails the
  element is returned as it was: no notification, no change of the attributes. When
  the check passes, the first thing fired is an \<^verbatim>\<open>attributes\<close> notification that shows
  the attributes as they were before the call, the invariant still holds, and the
  attributes are changed as follows. After the merge, a key that the other element
  lacks has the value it had; a key with a plain value in the other element has that
  value; a key with a structured value in both has the merged value; a key with a
  structured value in the other element only has a fresh value set from the string of
  the other one; the keys are the old ones in their order, followed by the new ones in
  the order of the other element. After the subtraction, a key that the other
  element lacks has the value it had; a key with a plain value in the other element is
  gone; a key with a structured value in the other element has lost the tokens of that
  value, and is gone when no token is left; the keys that remain are in their old
  order.
\<close>

theorem merge_subtract_gated:
  assumes "wf_element A" and "wf_element B"
  shows "(\<exists>ok A'. canMergeAttributesFrom A B = Some ok \<and>
            mergeAttributesFrom other parse A B = Some (ok, A') \<and>
            (if ok then
               (\<exists>evs. fired A' = fired A @ (AttributesChange, attrs A, children A) # evs) \<and>
               wf_element A' \<and> name A' = name A \<and> children A' = children A \<and>
               (\<forall>k. map_of (attrs B) k = None \<longrightarrow> map_of (attrs A') k = map_of (attrs A) k) \<and>
               (\<forall>k s. map_of (attrs B) k = Some (Plain s) \<longrightarrow>
                  map_of (attrs A') k = Some (Plain s)) \<and>
               (\<forall>k ov v. map_of (attrs B) k = Some (Structured ov) \<and>
                    map_of (attrs A) k = Some (Structured v) \<longrightarrow>
                  (\<exists>v'. av_mergeFrom v ov = Some v' \<and>
                     map_of (attrs A') k = Some (Structured v'))) \<and>
               (\<forall>k ov. map_of (attrs B) k = Some (Structured ov) \<and> map_of (attrs A) k = None \<longrightarrow>
                  map_of (attrs A') k =
                    Some (Structured (av_setTo parse
                      (if usesStylesMap (name A) k then StylesMap [] else TokenList [])
                      (av_toString ov)))) \<and>
               map fst (attrs A') =
                 map fst (attrs A) @ filter (\<lambda>k. k \<notin> fst ` set (attrs A)) (map fst (attrs B))
             else A' = A)) \<and>
         (\<exists>ok A'. hasAttributesMatching A B = Some ok \<and>
            subtractAttributesOf A B = Some (ok, A') \<and>
            (if ok then
               fired A' = fired A @ [(AttributesChange, attrs A, children A)] \<and>
               wf_element A' \<and> name A' = name A \<and> children A' = children A \<and>
               (\<forall>k. map_of (attrs B) k = None \<longrightarrow> map_of (attrs A') k = map_of (attrs A) k) \<and>
               (\<forall>k s. map_of (attrs B) k = Some (Plain s) \<longrightarrow> map_of (attrs A') k = None) \<and>
               (\<forall>k ov. map_of (attrs B) k = Some (Structured ov) \<longrightarrow>
                  (\<exists>v. map_of (attrs A) k = Some (Structured v) \<and>
                     map_of (attrs A') k =
                       (if av_isEmpty (av_remove v (av_keys ov)) then None
                        else Some (Structured (av_remove v (av_keys ov)))))) \<and>
               map fst (attrs A') =
                 filter (\<lambda>k. map_of (attrs A') k \<noteq> None) (map fst (attrs A))
             else A' = A))"
proof
  from assms have wfA: "wf_attrs (name A) (attrs A)" and wfB: "wf_attrs (name B) (attrs B)"
    by (simp_all add: wf_element_def)
  let ?A1 = "fireChange AttributesChange A"
  have wfA1: "wf_element ?A1" using assms(1) by (simp add: wf_element_def fireChange_def)
  have A1: "name ?A1 = name A" "attrs ?A1 = attrs A" "children ?A1 = children A"
    "fired ?A1 = fired A @ [(AttributesChange, attrs A, children A)]"
    by (simp_all add: fireChange_def)
  show "\<exists>ok A'. canMergeAttributesFrom A B = Some ok \<and>
            mergeAttributesFrom other parse A B = Some (ok, A') \<and>
            (if ok then
               (\<exists>evs. fired A' = fired A @ (AttributesChange, attrs A, children A) # evs) \<and>
               wf_element A' \<and> name A' = name A \<and> children A' = children A \<and>
               (\<forall>k. map_of (attrs B) k = None \<longrightarrow> map_of (attrs A') k = map_of (attrs A) k) \<and>
               (\<forall>k s. map_of (attrs B) k = Some (Plain s) \<longrightarrow>
                  map_of (attrs A') k = Some (Plain s)) \<and>
               (\<forall>k ov v. map_of (attrs B) k = Some (Structured ov) \<and>
                    map_of (attrs A) k = Some (Structured v) \<longrightarrow>
                  (\<exists>v'. av_mergeFrom v ov = Some v' \<and>
                     map_of (attrs A') k = Some (Structured v'))) \<and>
               (\<forall>k ov. map_of (attrs B) k = Some (Structured ov) \<and> map_of (attrs A) k = None \<longrightarrow>
                  map_of (attrs A') k =
                    Some (Structured (av_setTo parse
                      (if usesStylesMap (name A) k then StylesMap [] else TokenList [])
                      (av_toString ov)))) \<and>
               map fst (attrs A') =
                 map fst (attrs A) @ filter (\<lambda>k. k \<notin> fst ` set (attrs A)) (map fst (attrs B))
             else A' = A)"
  proof (cases "canMergeAttributesFrom A B = Some True")
    case False
    have "canMergeAttributesFrom A B \<noteq> None"
    proof (cases "name A = name B")
      case True
      with wfB have "list_all (\<lambda>kv. wf_value (name A) (fst kv) (snd kv)) (attrs B)"
        by (simp add: wf_attrs_def)
      with wfA have "canMerge_loop (attrs A) (attrs B) \<noteq> None"
        using canMerge_loop_total [of "name A" "attrs A" "attrs B"] by simp
      with True show ?thesis by (simp add: canMergeAttributesFrom_def)
    qed (simp add: canMergeAttributesFrom_def)
    with False have no: "canMergeAttributesFrom A B = Some False" by auto
    then show ?thesis
      by (intro exI [of _ False] exI [of _ A]) (simp add: mergeAttributesFrom_def)
  next
    case yes: True
    then have same: "name A = name B"
      by (cases "name A = name B") (simp_all add: canMergeAttributesFrom_def)
    with wfB have vals: "list_all (\<lambda>kv. wf_value (name ?A1) (fst kv) (snd kv)) (attrs B)"
      and d: "distinct (map fst (attrs B))"
      by (simp_all add: wf_attrs_def A1)
    from merge_loop_result [OF wfA1 vals d, of other parse] obtain A' evs where r:
      "merge_loop other parse ?A1 (attrs B) = Some A'" "wf_element A'" "name A' = name ?A1"
      "children A' = children ?A1" "fired A' = fired ?A1 @ evs"
      "\<forall>k. map_of (attrs A') k =
         (case map_of (attrs B) k of
            None \<Rightarrow> map_of (attrs ?A1) k
          | Some ov \<Rightarrow> mergedValue parse (name ?A1) k (map_of (attrs ?A1) k) ov)"
      "map fst (attrs A') =
         map fst (attrs ?A1) @ filter (\<lambda>k. k \<notin> fst ` set (attrs ?A1)) (map fst (attrs B))"
      by blast
    have m: "\<And>k. map_of (attrs A') k =
         (case map_of (attrs B) k of
            None \<Rightarrow> map_of (attrs A) k
          | Some ov \<Rightarrow> mergedValue parse (name A) k (map_of (attrs A) k) ov)"
      using spec [OF r(6)] unfolding A1 .
    have call: "mergeAttributesFrom other parse A B = Some (True, A')"
      using yes r(1) by (simp add: mergeAttributesFrom_def)
    have f: "\<exists>evs. fired A' = fired A @ (AttributesChange, attrs A, children A) # evs"
      using r(5) by (simp add: A1)
    have m1: "\<forall>k. map_of (attrs B) k = None \<longrightarrow> map_of (attrs A') k = map_of (attrs A) k"
      by (simp add: m)
    have m2: "\<forall>k s. map_of (attrs B) k = Some (Plain s) \<longrightarrow> map_of (attrs A') k = Some (Plain s)"
      by (simp add: m mergedValue_def)
    have m3: "\<forall>k ov v. map_of (attrs B) k = Some (Structured ov) \<and>
                    map_of (attrs A) k = Some (Structured v) \<longrightarrow>
                  (\<exists>v'. av_mergeFrom v ov = Some v' \<and>
                     map_of (attrs A') k = Some (Structured v'))"
    proof (intro allI impI)
      fix k ov v
      assume a: "map_of (attrs B) k = Some (Structured ov) \<and>
                    map_of (attrs A) k = Some (Structured v)"
      then have aA: "map_of (attrs A) k = Some (Structured v)" by simp
      from wfA aA have "wf_value (name A) k (Structured v)" by (rule wf_attrs_lookup)
      moreover from a wfB same have "wf_value (name A) k (Structured ov)"
        using wf_attrs_lookup [of "name B" "attrs B" k "Structured ov"] by simp
      ultimately have "\<exists>v'. av_mergeFrom v ov = Some v' \<and> wf_value (name A) k (Structured v')"
        by (intro wf_value_mergeFrom)
      then obtain v' where "av_mergeFrom v ov = Some v'" by blast
      with a show "\<exists>v'. av_mergeFrom v ov = Some v' \<and> map_of (attrs A') k = Some (Structured v')"
        by (simp add: m mergedValue_def)
    qed
    have m4: "\<forall>k ov. map_of (attrs B) k = Some (Structured ov) \<and> map_of (attrs A) k = None \<longrightarrow>
                  map_of (attrs A') k =
                    Some (Structured (av_setTo parse
                      (if usesStylesMap (name A) k then StylesMap [] else TokenList [])
                      (av_toString ov)))"
      by (simp add: m mergedValue_def freshValue_def)
    have m5: "map fst (attrs A') =
        map fst (attrs A) @ filter (\<lambda>k. k \<notin> fst ` set (attrs A)) (map fst (attrs B))"
      using r(7) unfolding A1 .
    have n: "name A' = name A" "children A' = children A" using r(3,4) by (simp_all add: A1)
    have "canMergeAttributesFrom A B = Some True \<and>
            mergeAttributesFrom other parse A B = Some (True, A') \<and>
            (if True then
               (\<exists>evs. fired A' = fired A @ (AttributesChange, attrs A, children A) # evs) \<and>
               wf_element A' \<and> name A' = name A \<and> children A' = children A \<and>
               (\<forall>k. map_of (attrs B) k = None \<longrightarrow> map_of (attrs A') k = map_of (attrs A) k) \<and>
               (\<forall>k s. map_of (attrs B) k = Some (Plain s) \<longrightarrow>
                  map_of (attrs A') k = Some (Plain s)) \<and>
               (\<forall>k ov v. map_of (attrs B) k = Some (Structured ov) \<and>
                    map_of (attrs A) k = Some (Structured v) \<longrightarrow>
                  (\<exists>v'. av_mergeFrom v ov = Some v' \<and>
                     map_of (attrs A') k = Some (Structured v'))) \<and>
               (\<forall>k ov. map_of (attrs B) k = Some (Structured ov) \<and> map_of (attrs A) k = None \<longrightarrow>
                  map_of (attrs A') k =
                    Some (Structured (av_setTo parse
                      (if usesStylesMap (name A) k then StylesMap [] else TokenList [])
                      (av_toString ov)))) \<and>
               map fst (attrs A') =
                 map fst (attrs A) @ filter (\<lambda>k. k \<notin> fst ` set (attrs A)) (map fst (attrs B))
             else A' = A)"
      unfolding if_True by (intro conjI yes call f r(2) n m1 m2 m3 m4 m5)
    then show ?thesis by (intro exI)
  qed
  show "\<exists>ok A'. hasAttributesMatching A B = Some ok \<and>
            subtractAttributesOf A B = Some (ok, A') \<and>
            (if ok then
               fired A' = fired A @ [(AttributesChange, attrs A, children A)] \<and>
               wf_element A' \<and> name A' = name A \<and> children A' = children A \<and>
               (\<forall>k. map_of (attrs B) k = None \<longrightarrow> map_of (attrs A') k = map_of (attrs A) k) \<and>
               (\<forall>k s. map_of (attrs B) k = Some (Plain s) \<longrightarrow> map_of (attrs A') k = None) \<and>
               (\<forall>k ov. map_of (attrs B) k = Some (Structured ov) \<longrightarrow>
                  (\<exists>v. map_of (attrs A) k = Some (Structured v) \<and>
                     map_of (attrs A') k =
                       (if av_isEmpty (av_remove v (av_keys ov)) then None
                        else Some (Structured (av_remove v (av_keys ov)))))) \<and>
               map fst (attrs A') =
                 filter (\<lambda>k. map_of (attrs A') k \<noteq> None) (map fst (attrs A))
             else A' = A)"
  proof (cases "hasAttributesMatching A B = Some True")
    case False
    have "hasAttributesMatching A B \<noteq> None"
    proof (cases "name A = name B")
      case True
      with wfB have "list_all (\<lambda>kv. wf_value (name A) (fst kv) (snd kv)) (attrs B)"
        by (simp add: wf_attrs_def)
      with wfA have "hasMatching_loop (attrs A) (attrs B) \<noteq> None"
        using hasMatching_loop_total [of "name A" "attrs A" "attrs B"] by simp
      with True show ?thesis by (simp add: hasAttributesMatching_def)
    qed (simp add: hasAttributesMatching_def)
    with False have no: "hasAttributesMatching A B = Some False" by auto
    then show ?thesis
      by (intro exI [of _ False] exI [of _ A]) (simp add: subtractAttributesOf_def)
  next
    case yes: True
    then have same: "name A = name B"
      by (cases "name A = name B") (simp_all add: hasAttributesMatching_def)
    with yes have loop: "hasMatching_loop (attrs A) (attrs B) = Some True"
      by (simp add: hasAttributesMatching_def)
    from wfB have d: "distinct (map fst (attrs B))" by (simp add: wf_attrs_def)
    from loop have present: "\<forall>kv \<in> set (attrs B). map_of (attrs ?A1) (fst kv) \<noteq> None"
      using hasMatching_loop_present by (simp add: A1)
    from subtract_loop_result [OF wfA1 d present] obtain A' where r:
      "subtract_loop ?A1 (attrs B) = Some A'" "wf_element A'" "name A' = name ?A1"
      "children A' = children ?A1" "fired A' = fired ?A1"
      "\<forall>k. map_of (attrs A') k =
         (case map_of (attrs B) k of
            None \<Rightarrow> map_of (attrs ?A1) k
          | Some ov \<Rightarrow> subtractedValue (map_of (attrs ?A1) k) ov)"
      "map fst (attrs A') = filter (\<lambda>k. map_of (attrs A') k \<noteq> None) (map fst (attrs ?A1))"
      by blast
    have m: "\<And>k. map_of (attrs A') k =
         (case map_of (attrs B) k of
            None \<Rightarrow> map_of (attrs A) k
          | Some ov \<Rightarrow> subtractedValue (map_of (attrs A) k) ov)"
      using spec [OF r(6)] unfolding A1 .
    have call: "subtractAttributesOf A B = Some (True, A')"
      using yes r(1) by (simp add: subtractAttributesOf_def)
    have f: "fired A' = fired A @ [(AttributesChange, attrs A, children A)]"
      using r(5) by (simp add: A1)
    have m1: "\<forall>k. map_of (attrs B) k = None \<longrightarrow> map_of (attrs A') k = map_of (attrs A) k"
      by (simp add: m)
    have m2: "\<forall>k s. map_of (attrs B) k = Some (Plain s) \<longrightarrow> map_of (attrs A') k = None"
      by (simp add: m subtractedValue_def split: option.splits attr_value.splits)
    have m3: "\<forall>k ov. map_of (attrs B) k = Some (Structured ov) \<longrightarrow>
                  (\<exists>v. map_of (attrs A) k = Some (Structured v) \<and>
                     map_of (attrs A') k =
                       (if av_isEmpty (av_remove v (av_keys ov)) then None
                        else Some (Structured (av_remove v (av_keys ov)))))"
    proof (intro allI impI)
      fix k ov
      assume a: "map_of (attrs B) k = Some (Structured ov)"
      then have "(k, Structured ov) \<in> set (attrs B)" by (rule map_of_SomeD)
      with present obtain w where w: "map_of (attrs A) k = Some w" by (force simp: A1)
      from a wfB same have "wf_value (name A) k (Structured ov)"
        using wf_attrs_lookup [of "name B" "attrs B" k "Structured ov"] by simp
      then have st: "usesStylesMap (name A) k \<or> usesTokenList (name A) k" by (cases ov) auto
      from wfA w have "wf_value (name A) k w" by (rule wf_attrs_lookup)
      with st obtain v where "w = Structured v" using wf_value_structured by blast
      with a w show "\<exists>v. map_of (attrs A) k = Some (Structured v) \<and>
                     map_of (attrs A') k =
                       (if av_isEmpty (av_remove v (av_keys ov)) then None
                        else Some (Structured (av_remove v (av_keys ov))))"
        by (simp add: m subtractedValue_def)
    qed
    have m4: "map fst (attrs A') = filter (\<lambda>k. map_of (attrs A') k \<noteq> None) (map fst (attrs A))"
      using r(7) unfolding A1 .
    have n: "name A' = name A" "children A' = children A" using r(3,4) by (simp_all add: A1)
    have "hasAttributesMatching A B = Some True \<and>
            subtractAttributesOf A B = Some (True, A') \<and>
            (if True then
               fired A' = fired A @ [(AttributesChange, attrs A, children A)] \<and>
               wf_element A' \<and> name A' = name A \<and> children A' = children A \<and>
               (\<forall>k. map_of (attrs B) k = None \<longrightarrow> map_of (attrs A') k = map_of (attrs A) k) \<and>
               (\<forall>k s. map_of (attrs B) k = Some (Plain s) \<longrightarrow> map_of (attrs A') k = None) \<and>
               (\<forall>k ov. map_of (attrs B) k = Some (Structured ov) \<longrightarrow>
                  (\<exists>v. map_of (attrs A) k = Some (Structured v) \<and>
                     map_of (attrs A') k =
                       (if av_isEmpty (av_remove v (av_keys ov)) then None
                        else Some (Structured (av_remove v (av_keys ov)))))) \<and>
               map fst (attrs A') =
                 filter (\<lambda>k. map_of (attrs A') k \<noteq> None) (map fst (attrs A))
             else A' = A)"
      unfolding if_True by (intro conjI yes call f r(2) n m1 m2 m3 m4)
    then show ?thesis by (intro exI)
  qed
qed

lemma wf_examples:
  "wf_element example_class_foo" "wf_element example_other_id" "wf_element example_class_baz"
  by (simp_all add: wf_element_def wf_attrs_def example_class_foo_def example_other_id_def
      example_class_baz_def usesTokenList_def usesStylesMap_def)

theorem merge_subtract_gated_witness:
  "wf_element example_div \<and> wf_element example_class_baz \<and>
   canMergeAttributesFrom example_div example_class_baz = Some True \<and>
   mergeAttributesFrom no_other no_styles example_div example_class_baz =
     Some (True, example_div
       \<lparr>attrs := [(''id'', Plain ''x''),
                  (''style'', Structured (StylesMap [(''color'', ''red'')])),
                  (''class'', Structured (TokenList [''foo'', ''bar'', ''baz''])),
                  (''rel'', Plain ''x y''),
                  (''title'', Plain ''t'')],
        fired := [(AttributesChange, attrs example_div, []),
                  (AttributesChange,
                   [(''id'', Plain ''x''),
                    (''style'', Structured (StylesMap [(''color'', ''red'')])),
                    (''class'', Structured (TokenList [''foo'', ''bar'', ''baz''])),
                    (''rel'', Plain ''x y'')], [])]\<rparr>) \<and>
   hasAttributesMatching example_div example_class_baz = Some False \<and>
   subtractAttributesOf example_div example_class_baz = Some (False, example_div) \<and>
   subtractAttributesOf example_div example_class_foo =
     Some (True, example_div
       \<lparr>attrs := [(''id'', Plain ''x''),
                  (''style'', Structured (StylesMap [(''color'', ''red'')])),
                  (''class'', Structured (TokenList [''bar''])),
                  (''rel'', Plain ''x y'')],
        fired := [(AttributesChange, attrs example_div, [])]\<rparr>) \<and>
   subtractAttributesOf example_class_foo example_class_foo =
     Some (True, example_class_foo
       \<lparr>attrs := [], fired := [(AttributesChange, attrs example_class_foo, [])]\<rparr>) \<and>
   mergeAttributesFrom no_other no_styles example_div example_other_id = Some (False, example_div)"
proof -
  note t = merge_subtract_gated [OF wf_example_div wf_examples(3), of no_other no_styles]
  have "mergeAttributesFrom no_other no_styles example_div example_class_baz =
     Some (True, example_div
       \<lparr>attrs := [(''id'', Plain ''x''),
                  (''style'', Structured (StylesMap [(''color'', ''red'')])),
                  (''class'', Structured (TokenList [''foo'', ''bar'', ''baz''])),
                  (''rel'', Plain ''x y''),
                  (''title'', Plain ''t'')],
        fired := [(AttributesChange, attrs example_div, []),
                  (AttributesChange,
                   [(''id'', Plain ''x''),
                    (''style'', Structured (StylesMap [(''color'', ''red'')])),
                    (''class'', Structured (TokenList [''foo'', ''bar'', ''baz''])),
                    (''rel'', Plain ''x y'')], [])]\<rparr>)"
    using t by (simp add: mergeAttributesFrom_def canMergeAttributesFrom_def fireChange_def
        setAttribute_def usesTokenList_def usesStylesMap_def
        example_div_def example_class_baz_def)
  moreover have "canMergeAttributesFrom example_div example_class_baz = Some True"
    by (simp add: canMergeAttributesFrom_def example_div_def example_class_baz_def)
  moreover have "hasAttributesMatching example_div example_class_baz = Some False"
    "subtractAttributesOf example_div example_class_baz = Some (False, example_div)"
    by (simp_all add: subtractAttributesOf_def hasAttributesMatching_def
        example_div_def example_class_baz_def)
  moreover have "subtractAttributesOf example_div example_class_foo =
     Some (True, example_div
       \<lparr>attrs := [(''id'', Plain ''x''),
                  (''style'', Structured (StylesMap [(''color'', ''red'')])),
                  (''class'', Structured (TokenList [''bar''])),
                  (''rel'', Plain ''x y'')],
        fired := [(AttributesChange, attrs example_div, [])]\<rparr>)"
    "subtractAttributesOf example_class_foo example_class_foo =
     Some (True, example_class_foo
       \<lparr>attrs := [], fired := [(AttributesChange, attrs example_class_foo, [])]\<rparr>)"
    by (simp_all add: subtractAttributesOf_def hasAttributesMatching_def fireChange_def
        example_div_def example_class_foo_def av_isEmpty_def av_size_def)
  moreover have
    "mergeAttributesFrom no_other no_styles example_div example_other_id = Some (False, example_div)"
    by (simp add: mergeAttributesFrom_def canMergeAttributesFrom_def
        example_div_def example_other_id_def)
  ultimately show ?thesis using wf_example_div wf_examples(3) by simp
qed

subsection \<open>Similar elements and their identity\<close>

lemma ex_attrs:
  "attrs example_rel_xy = [(''rel'', Structured (TokenList [''x'', ''y'']))]"
  "attrs example_rel_yx = [(''rel'', Structured (TokenList [''y'', ''x'']))]"
  by (simp_all add: example_rel_xy_def example_rel_yx_def createEmptyElement_def
      parseAttributes_def toMap_def List.map_filter_simps parseValue_def usesStylesMap_def
      usesTokenList_def split_ws_def is_ws_def)

text \<open>
  C2 does not hold on the code. The two anchors with \<^verbatim>\<open>rel="x y"\<close> and \<^verbatim>\<open>rel="y x"\<close> are
  similar, since their token lists hold the same tokens, and their identity strings
  differ: \<^verbatim>\<open>getIdentity\<close> sorts the class names, and the declarations of a style are
  sorted by the styles map, but a token list stored under another key is written as it
  is.
\<close>

theorem isSimilar_identity_differs:
  "isSimilar example_rel_xy (OtherElement example_rel_yx) = Some True \<and>
   getIdentity example_rel_xy = Some (''a rel='' @ dq @ ''x y'' @ dq) \<and>
   getIdentity example_rel_yx = Some (''a rel='' @ dq @ ''y x'' @ dq) \<and>
   getIdentity example_rel_xy \<noteq> getIdentity example_rel_yx"
proof -
  have n: "name example_rel_xy = ''a''" "name example_rel_yx = ''a''"
    by (simp_all add: example_rel_xy_def example_rel_yx_def createEmptyElement_def)
  have "isSimilar example_rel_xy (OtherElement example_rel_yx) = Some True"
    by (simp add: isSimilar_def ex_attrs n)
  moreover have "getIdentity example_rel_xy = Some (''a rel='' @ dq @ ''x y'' @ dq)"
    by (simp add: getIdentity_def classes_def styles_def ex_attrs n js_sort_def)
  moreover have "getIdentity example_rel_yx = Some (''a rel='' @ dq @ ''y x'' @ dq)"
    by (simp add: getIdentity_def classes_def styles_def ex_attrs n js_sort_def)
  ultimately show ?thesis by simp
qed

subsection \<open>Inserting and removing children\<close>

lemma upto_one: "[i..i + 1 - 1] = [i]"
  by (simp add: upto.simps)

lemma splice_insert:
  "0 \<le> i \<Longrightarrow> i \<le> int (length xs) \<Longrightarrow>
   snd (splice xs i 0 items) = take (nat i) xs @ items @ drop (nat i) xs"
  by (simp add: splice_def Let_def min_def)

lemma splice_remove:
  "0 \<le> i \<Longrightarrow> i + int k \<le> int (length xs) \<Longrightarrow>
   splice xs i (int k) [] = (take k (drop (nat i) xs), take (nat i) xs @ drop (nat i + k) xs)"
  by (simp add: splice_def Let_def min_def max_def)

lemma indexOf_Some:
  "x \<in> set xs \<Longrightarrow> \<exists>i. indexOf xs x = Some i \<and> i < length xs \<and> xs ! i = x"
  by (induction xs) auto

lemma set_without_nth:
  assumes "i < length xs" and "m \<in> set xs" and "m \<noteq> xs ! i"
  shows "m \<in> set (take i xs @ drop (Suc i) xs)"
proof -
  from assms(1) have "xs = take i xs @ xs ! i # drop (Suc i) xs" by (rule id_take_nth_drop)
  then have "set xs = set (take i xs @ xs ! i # drop (Suc i) xs)" by (rule arg_cong)
  with assms(2,3) show ?thesis by auto
qed

lemma removeChildren_one:
  assumes "elements s p = Some pe" and "i < length (children pe)"
  shows "\<exists>s'. removeChildren s p (int i) 1 = Some ([children pe ! i], s') \<and>
           parents s' = (parents s)(children pe ! i := None) \<and>
           elements s' = (elements s)
             (p \<mapsto> (fireChange ChildrenChange pe)
                      \<lparr>children := take i (children pe) @ drop (Suc i) (children pe)\<rparr>) \<and>
           texts s' = texts s \<and> next_ref s' = next_ref s"
proof -
  have sp: "splice (children pe) (int i) 1 [] =
      ([children pe ! i], take i (children pe) @ drop (Suc i) (children pe))"
    using assms(2) splice_remove [of "int i" 1 "children pe"]
    by (simp add: take_Suc_conv_app_nth)
  show ?thesis
    using assms sp
    by (simp add: removeChildren_def fire_def fireChange_def upto_one)
qed

lemma remove_detach:
  assumes "parents s n = Some p" and "elements s p = Some pe" and "n \<in> set (children pe)"
  shows "\<exists>s'. remove s n = Some s' \<and> parents s' = (parents s)(n := None) \<and>
           (\<forall>q. q \<noteq> p \<longrightarrow> elements s' q = elements s q) \<and>
           (\<exists>pe'. elements s' p = Some pe' \<and>
              (\<forall>m. m \<noteq> n \<longrightarrow> m \<in> set (children pe) \<longrightarrow> m \<in> set (children pe')))"
proof -
  from indexOf_Some [OF assms(3)] obtain i where
    "indexOf (children pe) n = Some i \<and> i < length (children pe) \<and> children pe ! i = n" ..
  then have i: "indexOf (children pe) n = Some i" "i < length (children pe)"
    "children pe ! i = n"
    by simp_all
  from removeChildren_one [OF assms(2) i(2)] obtain s' where
    "removeChildren s p (int i) 1 = Some ([children pe ! i], s') \<and>
     parents s' = (parents s)(children pe ! i := None) \<and>
     elements s' = (elements s)
       (p \<mapsto> (fireChange ChildrenChange pe)
                \<lparr>children := take i (children pe) @ drop (Suc i) (children pe)\<rparr>) \<and>
     texts s' = texts s \<and> next_ref s' = next_ref s" ..
  then have s': "removeChildren s p (int i) 1 = Some ([children pe ! i], s')"
    "parents s' = (parents s)(children pe ! i := None)"
    "elements s' = (elements s)
       (p \<mapsto> (fireChange ChildrenChange pe)
                \<lparr>children := take i (children pe) @ drop (Suc i) (children pe)\<rparr>)"
    by blast+
  let ?pe' = "(fireChange ChildrenChange pe)
      \<lparr>children := take i (children pe) @ drop (Suc i) (children pe)\<rparr>"
  have r: "remove s n = Some s'"
    using assms(1,2) i(1) s'(1) by (simp add: remove_def)
  have a: "parents s' = (parents s)(n := None)"
    using s'(2) i(3) by simp
  have b: "\<forall>q. q \<noteq> p \<longrightarrow> elements s' q = elements s q"
    by (simp add: s'(3))
  have c: "elements s' p = Some ?pe'"
    by (simp add: s'(3))
  have "\<forall>m. m \<noteq> n \<longrightarrow> m \<in> set (children pe) \<longrightarrow>
      m \<in> set (take i (children pe) @ drop (Suc i) (children pe))"
    using set_without_nth [OF i(2)] i(3) by blast
  then have d: "\<forall>m. m \<noteq> n \<longrightarrow> m \<in> set (children pe) \<longrightarrow> m \<in> set (children ?pe')"
    by simp
  show ?thesis
  proof (intro exI [of _ s'] conjI)
    show "\<exists>pe'. elements s' p = Some pe' \<and>
        (\<forall>m. m \<noteq> n \<longrightarrow> m \<in> set (children pe) \<longrightarrow> m \<in> set (children pe'))"
      using c d by (intro exI [of _ ?pe'] conjI)
  qed (fact r a b)+
qed

lemma detach_step:
  assumes "detachable s this n" and "elements s this = Some e"
  shows "\<exists>s1. (if parents s n \<noteq> None then remove s n else Some s) = Some s1 \<and>
           elements s1 this = Some e \<and>
           (\<forall>m. m \<noteq> n \<longrightarrow> detachable s this m \<longrightarrow> detachable s1 this m)"
proof (cases "parents s n")
  case None
  with assms show ?thesis by simp
next
  case (Some p)
  with assms(1) obtain pe where p: "p \<noteq> this" "elements s p = Some pe" "n \<in> set (children pe)"
    by (auto simp: detachable_def split: option.splits)
  from remove_detach [OF Some p(2,3)] obtain s' where
    "remove s n = Some s' \<and> parents s' = (parents s)(n := None) \<and>
     (\<forall>q. q \<noteq> p \<longrightarrow> elements s' q = elements s q) \<and>
     (\<exists>pe'. elements s' p = Some pe' \<and>
        (\<forall>m. m \<noteq> n \<longrightarrow> m \<in> set (children pe) \<longrightarrow> m \<in> set (children pe')))" ..
  then obtain pe' where s': "remove s n = Some s'"
    "parents s' = (parents s)(n := None)"
    "\<forall>q. q \<noteq> p \<longrightarrow> elements s' q = elements s q"
    "elements s' p = Some pe'"
    "\<forall>m. m \<noteq> n \<longrightarrow> m \<in> set (children pe) \<longrightarrow> m \<in> set (children pe')"
    by blast
  have "\<forall>m. m \<noteq> n \<longrightarrow> detachable s this m \<longrightarrow> detachable s' this m"
  proof (intro allI impI)
    fix m assume m: "m \<noteq> n" "detachable s this m"
    show "detachable s' this m"
    proof (cases "parents s m")
      case None
      with m(1) s'(2) show ?thesis by (simp add: detachable_def)
    next
      case (Some q)
      with m(2) obtain qe where q: "q \<noteq> this" "elements s q = Some qe" "m \<in> set (children qe)"
        by (auto simp: detachable_def split: option.splits)
      show ?thesis
      proof (cases "q = p")
        case True
        with q p(2) have "m \<in> set (children pe)" by simp
        with m(1) s'(5) have "m \<in> set (children pe')" by blast
        with True Some m(1) s'(2,4) q(1) show ?thesis by (simp add: detachable_def)
      next
        case False
        with s'(3) q(2) have "elements s' q = Some qe" by simp
        with Some m(1) s'(2) q(1,3) show ?thesis by (simp add: detachable_def)
      qed
    qed
  qed
  moreover from p(1) s'(3) assms(2) have "elements s' this = Some e" by simp
  moreover from Some s'(1) have "(if parents s n \<noteq> None then remove s n else Some s) = Some s'"
    by simp
  ultimately show ?thesis by blast
qed

lemma insert_loop_children:
  assumes "distinct ns" and "\<forall>n \<in> set ns. detachable s this n" and "elements s this = Some e"
    and "0 \<le> idx" and "idx \<le> int (length (children e))"
  shows "\<exists>s' e'. insert_loop s this idx c ns = Some (c + length ns, s') \<and>
           elements s' this = Some e' \<and>
           children e' = take (nat idx) (children e) @ ns @ drop (nat idx) (children e)"
  using assms
proof (induction ns arbitrary: s e idx c)
  case Nil
  then show ?case by simp
next
  case (Cons n ns)
  from Cons.prems have "detachable s this n" by simp
  from detach_step [OF this Cons.prems(3)] obtain s1 where
    "(if parents s n \<noteq> None then remove s n else Some s) = Some s1 \<and>
     elements s1 this = Some e \<and>
     (\<forall>m. m \<noteq> n \<longrightarrow> detachable s this m \<longrightarrow> detachable s1 this m)" ..
  then have s1:
    "(if parents s n \<noteq> None then remove s n else Some s) = Some s1"
    "elements s1 this = Some e"
    "\<forall>m. m \<noteq> n \<longrightarrow> detachable s this m \<longrightarrow> detachable s1 this m"
    by blast+
  let ?cs = "take (nat idx) (children e) @ [n] @ drop (nat idx) (children e)"
  let ?e2 = "e\<lparr>children := ?cs\<rparr>"
  let ?s2 = "s1\<lparr>parents := (parents s1)(n \<mapsto> this), elements := (elements s1)(this \<mapsto> ?e2)\<rparr>"
  have sp: "snd (splice (children e) idx 0 [n]) = ?cs"
    using Cons.prems(4,5) by (rule splice_insert)
  have step: "insert_loop s this idx c (n # ns) = insert_loop ?s2 this (idx + 1) (c + 1) ns"
    using s1(1,2) sp by simp
  have det: "\<forall>m \<in> set ns. detachable ?s2 this m"
  proof
    fix m assume m: "m \<in> set ns"
    with Cons.prems(1,2) have "m \<noteq> n" "detachable s this m" by auto
    with s1(3) have "detachable s1 this m" by blast
    with \<open>m \<noteq> n\<close> show "detachable ?s2 this m"
      by (auto simp: detachable_def split: option.splits)
  qed
  have "\<exists>s' e'. insert_loop ?s2 this (idx + 1) (c + 1) ns = Some (c + 1 + length ns, s') \<and>
           elements s' this = Some e' \<and>
           children e' = take (nat (idx + 1)) (children ?e2) @ ns @ drop (nat (idx + 1)) (children ?e2)"
    using Cons.prems(1,4,5) det by (intro Cons.IH) auto
  moreover have "take (nat (idx + 1)) ?cs = take (nat idx) (children e) @ [n]"
    using Cons.prems(4,5) by (simp add: nat_add_distrib min_def)
  moreover have "drop (nat (idx + 1)) ?cs = drop (nat idx) (children e)"
    using Cons.prems(4,5) by (simp add: nat_add_distrib min_def)
  ultimately show ?case using step by simp
qed

lemma clearParents_range:
  assumes "elements s this = Some e" and "0 \<le> i" and "i + int k \<le> int (length (children e))"
  shows "\<exists>s'. clearParents s this [i..i + int k - 1] = Some s' \<and> elements s' = elements s \<and>
           (\<forall>x. parents s' x =
              (if x \<in> set (take k (drop (nat i) (children e))) then None else parents s x))"
  using assms
proof (induction k arbitrary: s i)
  case 0
  then show ?case by simp
next
  case (Suc k)
  let ?s1 = "s\<lparr>parents := (parents s)(children e ! nat i := None)\<rparr>"
  have "[i..i + int (Suc k) - 1] = i # [i + 1..i + int (Suc k) - 1]"
    by (rule upto_rec1) simp
  moreover have "i + int (Suc k) - 1 = i + 1 + int k - 1" by simp
  ultimately have up: "[i..i + int (Suc k) - 1] = i # [i + 1..i + 1 + int k - 1]"
    by (simp only:)
  from Suc.prems have lt: "i < int (length (children e))" "nat i < length (children e)" by auto
  have "\<exists>s'. clearParents ?s1 this [i + 1..i + 1 + int k - 1] = Some s' \<and>
      elements s' = elements ?s1 \<and>
      (\<forall>x. parents s' x =
         (if x \<in> set (take k (drop (nat (i + 1)) (children e))) then None else parents ?s1 x))"
    using Suc.prems by (intro Suc.IH) auto
  then obtain s' where s': "clearParents ?s1 this [i + 1..i + 1 + int k - 1] = Some s'"
    "elements s' = elements ?s1"
    "\<forall>x. parents s' x =
       (if x \<in> set (take k (drop (nat (i + 1)) (children e))) then None else parents ?s1 x)"
    by blast
  have dr: "drop (nat i) (children e) = children e ! nat i # drop (nat (i + 1)) (children e)"
    using lt(2) Suc.prems(2) by (simp add: Cons_nth_drop_Suc nat_add_distrib)
  have "clearParents s this [i..i + int (Suc k) - 1] = Some s'"
    using Suc.prems(1,2) lt(1) s'(1) unfolding up by simp
  moreover have "\<forall>x. parents s' x =
      (if x \<in> set (take (Suc k) (drop (nat i) (children e))) then None else parents s x)"
    using s'(3) unfolding dr by auto
  ultimately show ?case using s'(2) by simp
qed

lemma normalize_nodes: "normalize s (map NodeItem ns) = (ns, s)"
  by (induction ns) auto

lemma detachable_fire: "detachable (fire t r s) this n = detachable s this n"
  by (auto simp: detachable_def fire_def fireChange_def split: option.splits)

text \<open>
  C6, as the code has it. Let \<open>this\<close> be an element, \<open>i\<close> an index from 0 to the number of
  its children, and \<open>ns\<close> pairwise different nodes each of which has no parent or is
  listed by a parent other than \<open>this\<close>. Then \<^verbatim>\<open>_insertChild( i, ns )\<close> returns the length of
  \<open>ns\<close>, and \<^verbatim>\<open>_removeChildren( i, length )\<close> after it returns \<open>ns\<close> in its order; afterwards
  every node of \<open>ns\<close> has no parent and the children of \<open>this\<close> are what they were before
  the insertion.
\<close>

theorem insert_remove_roundtrip:
  assumes "elements s this = Some e" and "0 \<le> i" and "i \<le> int (length (children e))"
    and "distinct ns" and "\<forall>n \<in> set ns. detachable s this n"
  shows "\<exists>s1 s2. insertChild s this i (map NodeItem ns) = Some (length ns, s1) \<and>
           removeChildren s1 this i (int (length ns)) = Some (ns, s2) \<and>
           (\<forall>n \<in> set ns. parents s2 n = None) \<and>
           map_option children (elements s2 this) = Some (children e)"
proof -
  let ?s0 = "fire ChildrenChange this s"
  let ?e0 = "fireChange ChildrenChange e"
  have e0: "elements ?s0 this = Some ?e0" "children ?e0 = children e"
    using assms(1) by (simp_all add: fire_def fireChange_def)
  from assms(5) have "\<forall>n \<in> set ns. detachable ?s0 this n" by (simp add: detachable_fire)
  with assms(2-4) e0 obtain s1 e1 where s1:
    "insert_loop ?s0 this i 0 ns = Some (0 + length ns, s1)"
    "elements s1 this = Some e1"
    "children e1 = take (nat i) (children e) @ ns @ drop (nat i) (children e)"
    using insert_loop_children [of ns ?s0 this ?e0 i 0] by auto
  then have ins: "insertChild s this i (map NodeItem ns) = Some (length ns, s1)"
    by (simp add: insertChild_def normalize_nodes)
  let ?s1' = "fire ChildrenChange this s1"
  let ?e1' = "fireChange ChildrenChange e1"
  have e1': "elements ?s1' this = Some ?e1'" "children ?e1' = children e1"
    "parents ?s1' = parents s1"
    using s1(2) by (simp_all add: fire_def fireChange_def)
  have len: "i + int (length ns) \<le> int (length (children ?e1'))"
    using assms(2,3) by (simp add: e1'(2) s1(3))
  have seg: "take (length ns) (drop (nat i) (children ?e1')) = ns"
    using assms(2,3) by (simp add: e1'(2) s1(3))
  have rest: "take (nat i) (children ?e1') @ drop (nat i + length ns) (children ?e1') = children e"
    using assms(2,3) by (simp add: e1'(2) s1(3))
  from e1'(1) assms(2) len obtain s' where s':
    "clearParents ?s1' this [i..i + int (length ns) - 1] = Some s'"
    "elements s' = elements ?s1'"
    "\<forall>x. parents s' x =
       (if x \<in> set (take (length ns) (drop (nat i) (children ?e1'))) then None else parents ?s1' x)"
    using clearParents_range [of ?s1' this ?e1' i "length ns"] by blast
  have sp: "splice (children ?e1') i (int (length ns)) [] = (ns, children e)"
    using splice_remove [OF assms(2) len] seg rest by simp
  let ?s2 = "s'\<lparr>elements := (elements s')(this \<mapsto> ?e1'\<lparr>children := children e\<rparr>)\<rparr>"
  have "removeChildren s1 this i (int (length ns)) = Some (ns, ?s2)"
    using s'(1,2) e1'(1) sp by (simp add: removeChildren_def)
  moreover have "\<forall>n \<in> set ns. parents ?s2 n = None"
    using s'(3) seg by simp
  moreover have "map_option children (elements ?s2 this) = Some (children e)" by simp
  ultimately show ?thesis using ins by blast
qed

theorem insert_remove_roundtrip_witness:
  "map_option children (elements example_store 0) = Some [1] \<and>
   distinct [2, 4 :: nat] \<and> detachable example_store 0 2 \<and> detachable example_store 0 4 \<and>
   (\<exists>s1 s2. insertChild example_store 0 1 (map NodeItem [2, 4]) = Some (length [2, 4 :: nat], s1) \<and>
      removeChildren s1 0 1 (int (length [2, 4 :: nat])) = Some ([2, 4], s2) \<and>
      (\<forall>n \<in> set [2, 4]. parents s2 n = None) \<and>
      map_option children (elements s2 0) = Some [1])"
proof -
  let ?e = "\<lparr>name = ''p'', attrs = [], children = [1], fired = []\<rparr>"
  have h1: "elements example_store 0 = Some ?e" by (simp add: example_store_def)
  have h2: "(0::int) \<le> 1" and h3: "1 \<le> int (length (children ?e))" by simp_all
  have h4: "distinct [2, 4 :: nat]" by simp
  have d: "detachable example_store 0 2" "detachable example_store 0 4"
    by (simp_all add: detachable_def example_store_def)
  then have h5: "\<forall>n \<in> set [2, 4]. detachable example_store 0 n" by simp
  from insert_remove_roundtrip [OF h1 h2 h3 h4 h5]
  have "\<exists>s1 s2. insertChild example_store 0 1 (map NodeItem [2, 4]) = Some (length [2, 4 :: nat], s1) \<and>
      removeChildren s1 0 1 (int (length [2, 4 :: nat])) = Some ([2, 4], s2) \<and>
      (\<forall>n \<in> set [2, 4]. parents s2 n = None) \<and>
      map_option children (elements s2 0) = Some (children ?e)" .
  then have "\<exists>s1 s2. insertChild example_store 0 1 (map NodeItem [2, 4]) = Some (length [2, 4 :: nat], s1) \<and>
      removeChildren s1 0 1 (int (length [2, 4 :: nat])) = Some ([2, 4], s2) \<and>
      (\<forall>n \<in> set [2, 4]. parents s2 n = None) \<and>
      map_option children (elements s2 0) = Some [1]"
    by (simp only: element.select_convs)
  with h1 h4 d show ?thesis by (simp only: simp_thms option.map element.select_convs)
qed

text \<open>
  The claim C6 as it is written fails for a node that is already a child of the
  element: inserting the only child of the element 0 again at index 0 first removes it
  from its place, and removing it afterwards leaves the element without children.
\<close>

theorem roundtrip_counterexample:
  "\<exists>c s1 removed s2.
     insertChild example_store 0 0 [NodeItem 1] = Some (c, s1) \<and>
     removeChildren s1 0 0 1 = Some (removed, s2) \<and>
     map_option children (elements example_store 0) = Some [1] \<and>
     map_option children (elements s2 0) = Some []"
  by (simp add: insertChild_def removeChildren_def remove_def fire_def fireChange_def
      example_store_def splice_def upto.simps Let_def)

subsection \<open>The invariant holds after the constructor\<close>

lemma update_set_subset: "set (AList.update k v al) \<subseteq> insert (k, v) (set al)"
  by (induction al) auto

lemma toMap_go_values: "set (toMap_go es m) \<subseteq> set es \<union> set m"
proof (induction es m rule: toMap_go.induct)
  case (1 m)
  then show ?case by simp
next
  case (2 k v rest m)
  with update_set_subset [of k v m] show ?case by auto
qed

lemma in_map_filterD:
  "y \<in> set (List.map_filter f xs) \<Longrightarrow> \<exists>x \<in> set xs. f x = Some y"
  by (induction xs) (auto split: option.splits)

lemma parseValue_wf:
  assumes "parseValue parse nm k v = Some w" and "wf_js v"
  shows "wf_value nm k w"
proof (cases "usesStylesMap nm k")
  case True
  with assms show ?thesis
    by (cases v) (auto simp: parseValue_def sm_add_distinct split: if_splits)
next
  case notStyles: False
  show ?thesis
  proof (cases "usesTokenList nm k")
    case True
    with notStyles assms show ?thesis
      by (cases v) (auto simp: parseValue_def tl_add_wf split: if_splits)
  next
    case False
    with notStyles assms show ?thesis
      by (cases v) (auto simp: parseValue_def split: if_splits)
  qed
qed

lemma parseAttributes_wf:
  assumes "list_all (\<lambda>kv. wf_js (snd kv)) given"
  shows "wf_attrs nm (parseAttributes parse nm given)"
proof -
  have vals: "\<forall>kv \<in> set (toMap given). wf_js (snd kv)"
    using assms toMap_go_values [of given "[]"] by (auto simp: toMap_def list_all_iff)
  have "\<forall>kw \<in> set (parseAttributes parse nm given). wf_value nm (fst kw) (snd kw)"
  proof
    fix kw assume "kw \<in> set (parseAttributes parse nm given)"
    then have "\<exists>kv \<in> set (toMap given).
        map_option (Pair (fst kv)) (parseValue parse nm (fst kv) (snd kv)) = Some kw"
      unfolding parseAttributes_def by (rule in_map_filterD)
    then obtain kv where kv: "kv \<in> set (toMap given)"
      "map_option (Pair (fst kv)) (parseValue parse nm (fst kv) (snd kv)) = Some kw"
      by auto
    then obtain w where w: "parseValue parse nm (fst kv) (snd kv) = Some w" "kw = (fst kv, w)"
      by auto
    from vals kv(1) have "wf_js (snd kv)" by simp
    with w(1) have "wf_value nm (fst kv) w" by (rule parseValue_wf)
    with w(2) show "wf_value nm (fst kw) (snd kw)" by simp
  qed
  then show ?thesis
    by (simp add: wf_attrs_def parseAttributes_distinct list_all_iff)
qed

lemma createEmptyElement_wf:
  "list_all (\<lambda>kv. wf_js (snd kv)) given \<Longrightarrow> wf_element (createEmptyElement parse nm given)"
  by (simp add: wf_element_def createEmptyElement_def parseAttributes_wf)

subsection \<open>Where similar elements do have the same identity\<close>

text \<open>
  Apart from token lists stored under a key other than \<^verbatim>\<open>class\<close>, the promise of C2
  holds: two similar elements that satisfy the invariant, and whose token lists under
  such keys list their tokens in the same order, have the same identity string.
\<close>

lemma isSimilar_loop_True:
  "isSimilar_loop as bs = Some True \<Longrightarrow>
   \<forall>kv \<in> set as. \<exists>w. map_of bs (fst kv) = Some w \<and> similarValues (snd kv) w"
proof (induction as)
  case Nil
  then show ?case by simp
next
  case (Cons kv as)
  obtain k v where kv: "kv = (k, v)" by (cases kv)
  from Cons.prems obtain w where w: "map_of bs k = Some w"
    by (cases "map_of bs k") (simp_all add: kv)
  from Cons.prems w have "similarValues v w \<and> isSimilar_loop as bs = Some True"
    by (cases v; cases w) (auto simp: kv similarValues_def split: option.splits if_splits)
  with Cons.IH w show ?case by (simp add: kv)
qed

lemma same_keys:
  assumes "distinct (map fst as)" and "distinct (map fst bs)" and "length as = length bs"
    and "\<forall>kv \<in> set as. map_of bs (fst kv) \<noteq> None"
  shows "set (map fst as) = set (map fst bs)"
proof -
  have sub: "set (map fst as) \<subseteq> set (map fst bs)"
  proof
    fix k assume "k \<in> set (map fst as)"
    then obtain kv where "kv \<in> set as" "k = fst kv" by auto
    with assms(4) have "map_of bs k \<noteq> None" by simp
    then show "k \<in> set (map fst bs)" by (simp add: map_of_eq_None_iff)
  qed
  have "card (set (map fst as)) = length as" using assms(1) distinct_card by fastforce
  moreover have "card (set (map fst bs)) = length bs" using assms(2) distinct_card by fastforce
  ultimately have "card (set (map fst as)) = card (set (map fst bs))" using assms(3) by simp
  with sub show ?thesis by (simp add: card_subset_eq)
qed

lemma distinct_same_mset:
  assumes "distinct xs" and "distinct ys" and "length xs = length ys" and "set xs \<subseteq> set ys"
  shows "mset xs = mset ys"
proof -
  have "card (set xs) = card (set ys)"
    using assms(1-3) by (simp add: distinct_card)
  with assms(4) have "set xs = set ys" by (simp add: card_subset_eq)
  with assms(1,2) show ?thesis by (simp add: set_eq_iff_mset_eq_distinct)
qed

lemma js_sort_mset: "mset xs = mset ys \<Longrightarrow> js_sort xs = js_sort ys"
  unfolding js_sort_def by (rule properties_for_sort) simp_all

lemma similar_tokens_sorted:
  assumes "distinct ts" and "distinct us"
    and "av_isSimilar (TokenList ts) (TokenList us) = Some True"
  shows "js_sort ts = js_sort us"
proof -
  from assms(3) have "length ts = length us" "set ts \<subseteq> set us" by auto
  with assms(1,2) have "mset ts = mset us" by (rule distinct_same_mset)
  then show ?thesis by (rule js_sort_mset)
qed

lemma similar_styles_string:
  assumes "distinct (map fst m)" and "distinct (map fst n)"
    and "av_isSimilar (StylesMap m) (StylesMap n) = Some True"
  shows "av_toString (StylesMap m) = av_toString (StylesMap n)"
proof -
  from assms(3) have len: "length m = length n"
    and all: "\<forall>kv \<in> set m. map_of n (fst kv) = Some (snd kv)" by auto
  have "set m \<subseteq> set n"
  proof
    fix kv assume "kv \<in> set m"
    with all have "map_of n (fst kv) = Some (snd kv)" by simp
    then have "(fst kv, snd kv) \<in> set n" by (rule map_of_SomeD)
    then show "kv \<in> set n" by simp
  qed
  moreover from assms(1,2) have "distinct m" "distinct n" by (simp_all add: distinct_map)
  ultimately have "mset m = mset n" using len by (intro distinct_same_mset)
  then have "image_mset (\<lambda>kv. fst kv @ '':'' @ snd kv) (mset m) =
      image_mset (\<lambda>kv. fst kv @ '':'' @ snd kv) (mset n)"
    by (rule arg_cong)
  then have "mset (map (\<lambda>kv. fst kv @ '':'' @ snd kv) m) = mset (map (\<lambda>kv. fst kv @ '':'' @ snd kv) n)"
    by (simp only: mset_map)
  then have "js_sort (map (\<lambda>kv. fst kv @ '':'' @ snd kv) m) =
      js_sort (map (\<lambda>kv. fst kv @ '':'' @ snd kv) n)"
    by (rule js_sort_mset)
  then show ?thesis by (simp only: av_toString.simps)
qed

lemma map_by_keys:
  assumes "distinct (map fst al)"
  shows "map g (filter (\<lambda>i. P (fst i)) al) =
         map (\<lambda>k. g (k, the (map_of al k))) (filter P (map fst al))"
proof -
  have "\<And>kv. kv \<in> set al \<Longrightarrow> g kv = g (fst kv, the (map_of al (fst kv)))"
  proof -
    fix kv assume "kv \<in> set al"
    then have "(fst kv, snd kv) \<in> set al" by simp
    with assms have "map_of al (fst kv) = Some (snd kv)" by (rule map_of_is_SomeI)
    then show "g kv = g (fst kv, the (map_of al (fst kv)))" by simp
  qed
  then have "map g (filter (\<lambda>i. P (fst i)) al) =
      map (\<lambda>kv. g (fst kv, the (map_of al (fst kv)))) (filter (\<lambda>i. P (fst i)) al)"
    by (intro map_cong) auto
  also have "\<dots> = map (\<lambda>k. g (k, the (map_of al k))) (filter P (map fst al))"
    by (simp add: filter_map comp_def)
  finally show ?thesis .
qed

lemma isSimilar_same_identity:
  assumes wfA: "wf_element A" and wfB: "wf_element B"
    and sim: "isSimilar A (OtherElement B) = Some True"
    and order: "\<forall>k ts us. k \<noteq> ''class'' \<and> map_of (attrs A) k = Some (Structured (TokenList ts)) \<and>
        map_of (attrs B) k = Some (Structured (TokenList us)) \<longrightarrow> ts = us"
  shows "getIdentity A = getIdentity B"
proof -
  from wfA have wa: "wf_attrs (name A) (attrs A)" and da: "distinct (map fst (attrs A))"
    by (simp_all add: wf_element_def wf_attrs_def)
  from wfB have wb: "wf_attrs (name B) (attrs B)" and db: "distinct (map fst (attrs B))"
    by (simp_all add: wf_element_def wf_attrs_def)
  from sim have nm: "name A = name B" and len: "length (attrs A) = length (attrs B)"
    and loop: "isSimilar_loop (attrs A) (attrs B) = Some True"
    by (auto simp: isSimilar_def split: if_splits)
  from loop have each: "\<forall>kv \<in> set (attrs A). \<exists>w. map_of (attrs B) (fst kv) = Some w \<and>
      similarValues (snd kv) w"
    by (rule isSimilar_loop_True)
  then have "\<forall>kv \<in> set (attrs A). map_of (attrs B) (fst kv) \<noteq> None" by auto
  with da db len have keys: "set (map fst (attrs A)) = set (map fst (attrs B))"
    by (rule same_keys)
  have lookup: "\<And>k v. map_of (attrs A) k = Some v \<Longrightarrow>
      \<exists>w. map_of (attrs B) k = Some w \<and> similarValues v w \<and>
          wf_value (name A) k v \<and> wf_value (name A) k w"
  proof -
    fix k v assume a: "map_of (attrs A) k = Some v"
    then have "(k, v) \<in> set (attrs A)" by (rule map_of_SomeD)
    with each have "\<exists>w. map_of (attrs B) (fst (k, v)) = Some w \<and> similarValues (snd (k, v)) w"
      by (rule bspec)
    then obtain w where w: "map_of (attrs B) k = Some w" "similarValues v w" by auto
    from wa a have "wf_value (name A) k v" by (rule wf_attrs_lookup)
    moreover from wb w(1) have "wf_value (name A) k w" unfolding nm by (rule wf_attrs_lookup)
    ultimately show "\<exists>w. map_of (attrs B) k = Some w \<and> similarValues v w \<and>
          wf_value (name A) k v \<and> wf_value (name A) k w"
      using w by simp
  qed
  have absent: "\<And>k. map_of (attrs A) k = None \<Longrightarrow> map_of (attrs B) k = None"
  proof -
    fix k assume "map_of (attrs A) k = None"
    then have "k \<notin> set (map fst (attrs A))" by (simp add: map_of_eq_None_iff)
    with keys have "k \<notin> set (map fst (attrs B))" by simp
    then show "map_of (attrs B) k = None" by (simp add: map_of_eq_None_iff)
  qed
  \<comment> \<open>the class names\<close>
  have cls: "(if truthy (classes A)
             then (case classes A of
                     Some (Structured v) \<Rightarrow> Some (join '','' (js_sort (av_keys v)))
                   | _ \<Rightarrow> None)
             else Some []) =
            (if truthy (classes B)
             then (case classes B of
                     Some (Structured v) \<Rightarrow> Some (join '','' (js_sort (av_keys v)))
                   | _ \<Rightarrow> None)
             else Some [])"
  proof (cases "map_of (attrs A) ''class''")
    case None
    with absent [OF None] show ?thesis by (simp add: classes_def)
  next
    case (Some v)
    from lookup [OF Some] obtain w where w: "map_of (attrs B) ''class'' = Some w"
      "similarValues v w" "wf_value (name A) ''class'' v" "wf_value (name A) ''class'' w"
      by blast
    from w(3) obtain ts where ts: "v = Structured (TokenList ts)" "distinct ts"
      by (cases "(name A, ''class'', v)" rule: wf_value.cases)
        (auto simp: usesTokenList_def usesStylesMap_def)
    from w(4) obtain us where us: "w = Structured (TokenList us)" "distinct us"
      by (cases "(name A, ''class'', w)" rule: wf_value.cases)
        (auto simp: usesTokenList_def usesStylesMap_def)
    from w(2) ts us have "av_isSimilar (TokenList ts) (TokenList us) = Some True"
      by (simp add: similarValues_def)
    with ts(2) us(2) have "js_sort ts = js_sort us" by (rule similar_tokens_sorted)
    with Some w(1) ts(1) us(1) show ?thesis by (simp add: classes_def)
  qed
  \<comment> \<open>the style\<close>
  have sty: "(if truthy (styles A) then String_of (the (styles A)) else []) =
             (if truthy (styles B) then String_of (the (styles B)) else [])"
  proof (cases "map_of (attrs A) ''style''")
    case None
    with absent [OF None] show ?thesis by (simp add: styles_def)
  next
    case (Some v)
    from lookup [OF Some] obtain w where w: "map_of (attrs B) ''style'' = Some w"
      "similarValues v w" "wf_value (name A) ''style'' v" "wf_value (name A) ''style'' w"
      by blast
    from w(3) obtain m where m: "v = Structured (StylesMap m)" "distinct (map fst m)"
      by (cases "(name A, ''style'', v)" rule: wf_value.cases)
        (auto simp: usesTokenList_def usesStylesMap_def)
    from w(4) obtain n where n: "w = Structured (StylesMap n)" "distinct (map fst n)"
      by (cases "(name A, ''style'', w)" rule: wf_value.cases)
        (auto simp: usesTokenList_def usesStylesMap_def)
    from w(2) m n have "av_isSimilar (StylesMap m) (StylesMap n) = Some True"
      by (simp add: similarValues_def)
    with m(2) n(2) have "av_toString (StylesMap m) = av_toString (StylesMap n)"
      by (rule similar_styles_string)
    with Some w(1) m(1) n(1) show ?thesis by (simp add: styles_def)
  qed
  \<comment> \<open>the other attributes\<close>
  let ?P = "\<lambda>k. k \<noteq> ''style'' \<and> k \<noteq> ''class''"
  let ?g = "\<lambda>i. fst i @ ''='' @ dq @ String_of (snd i) @ dq"
  let ?hA = "\<lambda>k. ?g (k, the (map_of (attrs A) k))"
  let ?hB = "\<lambda>k. ?g (k, the (map_of (attrs B) k))"
  have same: "\<And>k. k \<in> set (filter ?P (map fst (attrs A))) \<Longrightarrow> ?hA k = ?hB k"
  proof -
    fix k assume "k \<in> set (filter ?P (map fst (attrs A)))"
    then have k: "k \<noteq> ''style''" "k \<noteq> ''class''" "k \<in> set (map fst (attrs A))" by auto
    then obtain v where v: "map_of (attrs A) k = Some v"
      by (cases "map_of (attrs A) k") (simp_all add: map_of_eq_None_iff)
    from lookup [OF v] obtain w where w: "map_of (attrs B) k = Some w"
      "similarValues v w" "wf_value (name A) k v" "wf_value (name A) k w"
      by blast
    have "String_of v = String_of w"
    proof (cases v)
      case (Plain s)
      with w(2) show ?thesis by (cases w) (simp_all add: similarValues_def)
    next
      case sv: (Structured a)
      with w(3) k(1) obtain ts where ts: "a = TokenList ts"
        by (cases a) (auto simp: usesStylesMap_def)
      from w(2) sv obtain b where b: "w = Structured b"
        by (cases w) (simp_all add: similarValues_def)
      with w(4) k(1) obtain us where us: "b = TokenList us"
        by (cases b) (auto simp: usesStylesMap_def)
      from order k(2) v w(1) sv ts b us have "ts = us" by blast
      with sv ts b us show ?thesis by simp
    qed
    with v w(1) show "?hA k = ?hB k" by simp
  qed
  have "mset (map fst (attrs A)) = mset (map fst (attrs B))"
    using keys by (rule iffD1 [OF set_eq_iff_mset_eq_distinct [OF da db]])
  then have "filter_mset ?P (mset (map fst (attrs A))) = filter_mset ?P (mset (map fst (attrs B)))"
    by (rule arg_cong)
  then have "mset (filter ?P (map fst (attrs A))) = mset (filter ?P (map fst (attrs B)))"
    by (simp only: mset_filter)
  then have "image_mset ?hB (mset (filter ?P (map fst (attrs A)))) =
             image_mset ?hB (mset (filter ?P (map fst (attrs B))))"
    by (rule arg_cong)
  then have "mset (map ?hB (filter ?P (map fst (attrs A)))) =
             mset (map ?hB (filter ?P (map fst (attrs B))))"
    by (simp only: mset_map)
  moreover have eqmap:
    "map ?hA (filter ?P (map fst (attrs A))) = map ?hB (filter ?P (map fst (attrs A)))"
    by (rule map_cong [OF refl]) (rule same)
  ultimately have "mset (map ?hA (filter ?P (map fst (attrs A)))) =
             mset (map ?hB (filter ?P (map fst (attrs B))))"
    by (simp only:)
  then have "js_sort (map ?hA (filter ?P (map fst (attrs A)))) =
             js_sort (map ?hB (filter ?P (map fst (attrs B))))"
    by (rule js_sort_mset)
  moreover have "map ?g (filter (\<lambda>i. ?P (fst i)) (attrs A)) = map ?hA (filter ?P (map fst (attrs A)))"
    using da by (rule map_by_keys)
  moreover have "map ?g (filter (\<lambda>i. ?P (fst i)) (attrs B)) = map ?hB (filter ?P (map fst (attrs B)))"
    using db by (rule map_by_keys)
  ultimately have att: "js_sort (map ?g (filter (\<lambda>i. ?P (fst i)) (attrs A))) =
      js_sort (map ?g (filter (\<lambda>i. ?P (fst i)) (attrs B)))"
    by simp
  show ?thesis
    unfolding getIdentity_def Let_def
    by (simp only: cls sty att nm)
qed

end
